theory Spec2Isabelle
  imports Complex_Main "HOL-Library.Log_Nat"
begin

section \<open>The float64 values of Go\<close>

text \<open>
  Every number of the program (bucket bounds, counts, sum, min, max) is a Go \<open>float64\<close>.
  A value is a NaN, an infinity, the negative zero, or a finite number given by its real
  value (\<open>Fin 0\<close> is the positive zero).  Only the reals that binary64 can represent are
  float64 values; \<open>is_f64\<close> below singles them out.  NaN payloads are not distinguished.
\<close>

datatype f64 = NaN | PInf | NInf | NZero | Fin real

text \<open>\<open>pw2 e\<close> is the power of two with an integer exponent.\<close>

definition pw2 :: "int \<Rightarrow> real" where
  "pw2 e = (if 0 \<le> e then 2 ^ nat e else 1 / 2 ^ nat (- e))"

text \<open>The binary exponent of a positive real: \<open>pw2 (ilog2 q) \<le> q < pw2 (ilog2 q + 1)\<close>.\<close>

definition ilog2 :: "real \<Rightarrow> int" where
  "ilog2 q = (if 1 \<le> q then bitlen \<lfloor>q\<rfloor> - 1 else - bitlen (\<lceil>1 / q\<rceil> - 1))"

text \<open>Rounding to the nearest integer, ties to the even one.\<close>

definition rne :: "real \<Rightarrow> int" where
  "rne x = (let f = \<lfloor>x\<rfloor>; d = x - of_int f
            in if d < 1 / 2 then f else if 1 / 2 < d then f + 1
               else if even f then f else f + 1)"

text \<open>
  The exponent of the unit in the last place of the binade of \<open>q\<close>: 53 significant bits,
  and never below the subnormal unit \<open>pw2 (- 1074)\<close>.
\<close>

definition expo :: "real \<Rightarrow> int" where
  "expo q = max (ilog2 q - 52) (- 1074)"

definition rnd_pos :: "real \<Rightarrow> real" where
  "rnd_pos q = of_int (rne (q * pw2 (- expo q))) * pw2 (expo q)"

text \<open>
  Rounding of an exact result to binary64, round-to-nearest-even, the mode Go uses:
  a magnitude that rounds to \<open>pw2 1024\<close> or more overflows to an infinity, and a negative
  result that rounds to nothing is the negative zero.
\<close>

definition rnd :: "real \<Rightarrow> f64" where
  "rnd q = (if q = 0 then Fin 0
            else if 0 < q then (let r = rnd_pos q in if pw2 1024 \<le> r then PInf else Fin r)
            else (let r = rnd_pos (- q) in
                  if pw2 1024 \<le> r then NInf else if r = 0 then NZero else Fin (- r)))"

text \<open>A finite value is a float64 when rounding leaves it as it is.\<close>

fun is_f64 :: "f64 \<Rightarrow> bool" where
  "is_f64 (Fin q) = (rnd q = Fin q)"
| "is_f64 _ = True"

fun cls :: "f64 \<Rightarrow> int" where
  "cls NInf = - 1"
| "cls PInf = 1"
| "cls _ = 0"

fun val :: "f64 \<Rightarrow> real" where
  "val (Fin q) = q"
| "val _ = 0"

definition isNaN :: "f64 \<Rightarrow> bool" where
  "isNaN x = (x = NaN)"

definition is_inf :: "f64 \<Rightarrow> bool" where
  "is_inf x = (x = PInf \<or> x = NInf)"

definition is_zero :: "f64 \<Rightarrow> bool" where
  "is_zero x = (x = NZero \<or> x = Fin 0)"

fun signbit :: "f64 \<Rightarrow> bool" where
  "signbit NInf = True"
| "signbit NZero = True"
| "signbit (Fin q) = (q < 0)"
| "signbit _ = False"

text \<open>
  The comparison operators \<open><\<close>, \<open><=\<close>, \<open>>\<close>, \<open>>=\<close> of Go on float64: every comparison
  with a NaN is false, and the two zeros are equal.
\<close>

definition flt :: "f64 \<Rightarrow> f64 \<Rightarrow> bool" where
  "flt x y = (\<not> isNaN x \<and> \<not> isNaN y \<and> (cls x < cls y \<or> (cls x = cls y \<and> val x < val y)))"

definition fle :: "f64 \<Rightarrow> f64 \<Rightarrow> bool" where
  "fle x y = (\<not> isNaN x \<and> \<not> isNaN y \<and> (cls x < cls y \<or> (cls x = cls y \<and> val x \<le> val y)))"

definition fgt :: "f64 \<Rightarrow> f64 \<Rightarrow> bool" where
  "fgt x y = flt y x"

definition fge :: "f64 \<Rightarrow> f64 \<Rightarrow> bool" where
  "fge x y = fle y x"

text \<open>
  The operators \<open>+\<close>, \<open>-\<close>, \<open>*\<close> and \<open>/\<close> of Go on float64 (IEEE 754 binary64);
  \<open>x - y\<close> is \<open>x + (-y)\<close>.
\<close>

definition fadd :: "f64 \<Rightarrow> f64 \<Rightarrow> f64" where
  "fadd x y =
     (if isNaN x \<or> isNaN y then NaN
      else if is_inf x then (if is_inf y \<and> x \<noteq> y then NaN else x)
      else if is_inf y then y
      else if x = NZero then y
      else if y = NZero then x
      else rnd (val x + val y))"

fun fneg :: "f64 \<Rightarrow> f64" where
  "fneg NaN = NaN"
| "fneg PInf = NInf"
| "fneg NInf = PInf"
| "fneg NZero = Fin 0"
| "fneg (Fin q) = (if q = 0 then NZero else Fin (- q))"

definition fsub :: "f64 \<Rightarrow> f64 \<Rightarrow> f64" where
  "fsub x y = fadd x (fneg y)"

definition fmul :: "f64 \<Rightarrow> f64 \<Rightarrow> f64" where
  "fmul x y =
     (if isNaN x \<or> isNaN y then NaN
      else if is_inf x \<or> is_inf y then
        (if is_zero x \<or> is_zero y then NaN
         else if signbit x \<noteq> signbit y then NInf else PInf)
      else if is_zero x \<or> is_zero y then
        (if signbit x \<noteq> signbit y then NZero else Fin 0)
      else rnd (val x * val y))"

definition fdiv :: "f64 \<Rightarrow> f64 \<Rightarrow> f64" where
  "fdiv x y =
     (if isNaN x \<or> isNaN y then NaN
      else if is_inf x then
        (if is_inf y then NaN else if signbit x \<noteq> signbit y then NInf else PInf)
      else if is_inf y then (if signbit x \<noteq> signbit y then NZero else Fin 0)
      else if is_zero y then
        (if is_zero x then NaN else if signbit x \<noteq> signbit y then NInf else PInf)
      else if is_zero x then (if signbit x \<noteq> signbit y then NZero else Fin 0)
      else rnd (val x / val y))"

definition fzero :: f64 where
  "fzero = Fin 0"

definition fone :: f64 where
  "fone = Fin 1"

section \<open>The Go standard library functions the program calls\<close>

text \<open>
  \<open>sort.Search(n, f)\<close> is the binary search of package \<open>sort\<close> (the conversion to
  \<open>uint\<close> keeps \<open>i + j\<close> from overflowing, so the indices are natural numbers here):
  \<^verbatim>\<open>i, j := 0, n; for i < j { h := int(uint(i+j) >> 1); if !f(h) { i = h + 1 } else { j = h } }; return i\<close>
  and \<open>sort.SearchFloat64s(a, x)\<close> is \<open>sort.Search(len(a), func(i) { return a[i] >= x })\<close>.
\<close>

function search_loop :: "(nat \<Rightarrow> bool) \<Rightarrow> nat \<Rightarrow> nat \<Rightarrow> nat" where
  "search_loop f i j =
     (if i < j then
        (let h = (i + j) div 2
         in if \<not> f h then search_loop f (h + 1) j else search_loop f i h)
      else i)"
  by pat_completeness auto
termination
  by (relation "measure (\<lambda>(f, i, j). j - i)") auto

declare search_loop.simps [simp del]

definition Search :: "nat \<Rightarrow> (nat \<Rightarrow> bool) \<Rightarrow> nat" where
  "Search n f = search_loop f 0 n"

definition SearchFloat64s :: "f64 list \<Rightarrow> f64 \<Rightarrow> nat" where
  "SearchFloat64s a x = Search (length a) (\<lambda>i. fge (a ! i) x)"

text \<open>\<open>strings.Split(inp, ",")\<close>: the pieces between the commas, one more than commas.\<close>

fun split_comma :: "string \<Rightarrow> string list" where
  "split_comma [] = [[]]"
| "split_comma (c # cs) =
     (if c = CHR '','' then [] # split_comma cs
      else (case split_comma cs of [] \<Rightarrow> [[c]] | w # ws \<Rightarrow> (c # w) # ws))"

text \<open>
  \<open>strconv.ParseFloat(s, 64)\<close>, \<open>strings.TrimSpace\<close> and \<open>sort.Float64s\<close> are parameters of
  the model: \<open>parseFloat s = None\<close> stands for a non-nil error, \<open>sortFloat64s\<close> is the
  slice after the sort, and the scanner is the list of the texts that the successive
  calls of \<open>scanner.Scan\<close> deliver.
\<close>

section \<open>The program: main.go\<close>

text \<open>
  The errors of the program, under the names of the specification:
  \<^item> \<open>InvalidCountError\<close>: "--linear-buckets needs a positive count" and
    "exponential buckets need a positive count";
  \<^item> \<open>InvalidStartError\<close>: "exponential buckets need a positive start value";
  \<^item> \<open>InvalidFactorError\<close>: "exponential buckets need a factor greater than 1";
  \<^item> \<open>InvalidBoundaryError b\<close>: "non-numeric input: b";
  \<^item> \<open>MalformedSampleError v\<close>: \<open>printlnAndExit("found non-numerical input:", v)\<close>, which
    prints and ends the process with \<open>os.Exit(1)\<close>.
\<close>

datatype error =
    InvalidCountError
  | InvalidStartError
  | InvalidFactorError
  | InvalidBoundaryError string
  | MalformedSampleError string

text \<open>
  The struct \<open>promBucket\<close> is declared outside main.go; main.go reads and writes its two
  float64 fields.
\<close>

record promBucket =
  upperBound :: f64
  count :: f64

subsection \<open>parseBucketBoundaries\<close>

fun parse_boundaries :: "(string \<Rightarrow> f64 option) \<Rightarrow> string list \<Rightarrow> error + f64 list" where
  "parse_boundaries parseFloat [] = Inr []"
| "parse_boundaries parseFloat (b # bs) =
     (case parseFloat b of
        None \<Rightarrow> Inl (InvalidBoundaryError b)
      | Some v \<Rightarrow>
          (case parse_boundaries parseFloat bs of
             Inl e \<Rightarrow> Inl e
           | Inr vs \<Rightarrow> Inr (v # vs)))"

definition parseBucketBoundaries ::
  "(string \<Rightarrow> f64 option) \<Rightarrow> (f64 list \<Rightarrow> f64 list) \<Rightarrow> string \<Rightarrow> error + f64 list"
where
  "parseBucketBoundaries parseFloat sortFloat64s inp =
     (case parse_boundaries parseFloat (split_comma inp) of
        Inl e \<Rightarrow> Inl e
      | Inr result \<Rightarrow> Inr (sortFloat64s result))"

subsection \<open>parseValues\<close>

text \<open>
  The named results of \<open>parseValues\<close> (\<open>result\<close>, \<open>sum\<close>, \<open>count\<close>, \<open>min\<close>, \<open>max\<close>) and
  its local \<open>first\<close>.
\<close>

record accum =
  pv_result :: "promBucket list"
  pv_sum :: f64
  pv_count :: f64
  pv_min :: f64
  pv_max :: f64
  pv_first :: bool

text \<open>\<open>for ix := ...; ix < len(result); ix++ { result[ix].count++ }\<close>\<close>

function incrementFrom :: "nat \<Rightarrow> promBucket list \<Rightarrow> promBucket list" where
  "incrementFrom ix result =
     (if ix < length result then
        incrementFrom (ix + 1)
          (result[ix := (result ! ix)\<lparr>count := fadd (count (result ! ix)) fone\<rparr>])
      else result)"
  by pat_completeness auto
termination
  by (relation "measure (\<lambda>(ix, result). length result - ix)") auto

declare incrementFrom.simps [simp del]

text \<open>The slice \<open>result\<close> before the first sample: one bucket for each bound, and \<open>+Inf\<close>.\<close>

definition newResult :: "f64 list \<Rightarrow> promBucket list" where
  "newResult buckets =
     map (\<lambda>b. \<lparr>upperBound = b, count = fzero\<rparr>) buckets @ [\<lparr>upperBound = PInf, count = fzero\<rparr>]"

text \<open>The body of the scanning loop, after the sample has been parsed.\<close>

definition observe :: "f64 list \<Rightarrow> f64 \<Rightarrow> accum \<Rightarrow> accum" where
  "observe buckets sample st =
     (let st1 = (if pv_first st
                 then st\<lparr>pv_min := sample, pv_max := sample, pv_first := False\<rparr> else st);
          st2 = (if flt sample (pv_min st1) then st1\<lparr>pv_min := sample\<rparr> else st1);
          st3 = (if fgt sample (pv_max st2) then st2\<lparr>pv_max := sample\<rparr> else st2);
          st4 = st3\<lparr>pv_result :=
                      incrementFrom (SearchFloat64s buckets sample) (pv_result st3)\<rparr>
      in st4\<lparr>pv_sum := fadd (pv_sum st4) sample, pv_count := fadd (pv_count st4) fone\<rparr>)"

fun scan_loop ::
  "(string \<Rightarrow> string) \<Rightarrow> (string \<Rightarrow> f64 option) \<Rightarrow> f64 list \<Rightarrow> string list \<Rightarrow> accum
     \<Rightarrow> error + accum"
where
  "scan_loop trimSpace parseFloat buckets [] st = Inr st"
| "scan_loop trimSpace parseFloat buckets (line # rest) st =
     (let v = trimSpace line
      in case parseFloat v of
           None \<Rightarrow> Inl (MalformedSampleError v)
         | Some sample \<Rightarrow>
             scan_loop trimSpace parseFloat buckets rest (observe buckets sample st))"

definition parseValues ::
  "(string \<Rightarrow> string) \<Rightarrow> (string \<Rightarrow> f64 option) \<Rightarrow> string list \<Rightarrow> f64 list \<Rightarrow> error + accum"
where
  "parseValues trimSpace parseFloat scanner buckets =
     scan_loop trimSpace parseFloat buckets scanner
       \<lparr>pv_result = newResult buckets, pv_sum = fzero, pv_count = fzero,
        pv_min = fzero, pv_max = fzero, pv_first = True\<rparr>"

subsection \<open>linearBuckets and exponentialBuckets\<close>

text \<open>
  The count is a Go \<open>int\<close>; it is only compared with 1 and used as the length of the
  slice, so it is an integer here.  A slice can have any length: running out of memory in
  \<open>make\<close> is outside the model.

  \<open>for i := range buckets { buckets[i] = start; start += width }\<close>
\<close>

function linear_loop :: "f64 list \<Rightarrow> nat \<Rightarrow> f64 \<Rightarrow> f64 \<Rightarrow> f64 list" where
  "linear_loop buckets i start width =
     (if i < length buckets
      then linear_loop (buckets[i := start]) (i + 1) (fadd start width) width
      else buckets)"
  by pat_completeness auto
termination
  by (relation "measure (\<lambda>(buckets, i, start, width). length buckets - i)") auto

declare linear_loop.simps [simp del]

definition linearBuckets :: "f64 \<Rightarrow> f64 \<Rightarrow> int \<Rightarrow> error + f64 list" where
  "linearBuckets start width n =
     (if n < 1 then Inl InvalidCountError
      else Inr (linear_loop (replicate (nat n) fzero) 0 start width))"

text \<open>\<open>for i := range buckets { buckets[i] = start; start *= factor }\<close>\<close>

function exponential_loop :: "f64 list \<Rightarrow> nat \<Rightarrow> f64 \<Rightarrow> f64 \<Rightarrow> f64 list" where
  "exponential_loop buckets i start factor =
     (if i < length buckets
      then exponential_loop (buckets[i := start]) (i + 1) (fmul start factor) factor
      else buckets)"
  by pat_completeness auto
termination
  by (relation "measure (\<lambda>(buckets, i, start, factor). length buckets - i)") auto

declare exponential_loop.simps [simp del]

definition exponentialBuckets :: "f64 \<Rightarrow> f64 \<Rightarrow> int \<Rightarrow> error + f64 list" where
  "exponentialBuckets start factor n =
     (if n < 1 then Inl InvalidCountError
      else if fle start fzero then Inl InvalidStartError
      else if fle factor fone then Inl InvalidFactorError
      else Inr (exponential_loop (replicate (nat n) fzero) 0 start factor))"

subsection \<open>main\<close>

text \<open>The command-line flags, named after the flags of \<open>main\<close>.\<close>

record flags =
  flag_start :: f64
  flag_factor :: f64
  flag_width :: f64
  flag_count :: int
  flag_mode :: string
  flag_column_width :: int
  flag_buckets :: string

text \<open>
  The choice of the bounds in \<open>main\<close>; with an unknown mode and no explicit buckets no
  branch is taken, and \<open>bounds\<close> and \<open>err\<close> stay \<open>nil\<close>.
\<close>

definition chooseBounds ::
  "(string \<Rightarrow> f64 option) \<Rightarrow> (f64 list \<Rightarrow> f64 list) \<Rightarrow> flags \<Rightarrow> error + f64 list"
where
  "chooseBounds parseFloat sortFloat64s fl =
     (if flag_buckets fl \<noteq> []
        then parseBucketBoundaries parseFloat sortFloat64s (flag_buckets fl)
      else if flag_mode fl = ''linear'' \<or> flag_mode fl = ''lin''
        then linearBuckets (flag_start fl) (flag_width fl) (flag_count fl)
      else if flag_mode fl = ''exponential'' \<or> flag_mode fl = ''exp''
        then exponentialBuckets (flag_start fl) (flag_factor fl) (flag_count fl)
      else Inr [])"

text \<open>
  \<open>main\<close> ends with \<open>printlnAndExit\<close> (the value \<open>Inl\<close>) when the bounds or a sample are
  rejected; otherwise it hands the results of \<open>parseValues\<close> to \<open>printHistogram\<close> and
  \<open>printSummary\<close> (the value \<open>Inr\<close>), which write the output.
\<close>

definition main ::
  "(string \<Rightarrow> string) \<Rightarrow> (string \<Rightarrow> f64 option) \<Rightarrow> (f64 list \<Rightarrow> f64 list) \<Rightarrow> flags
     \<Rightarrow> string list \<Rightarrow> error + accum"
where
  "main trimSpace parseFloat sortFloat64s fl stdin =
     (case chooseBounds parseFloat sortFloat64s fl of
        Inl err \<Rightarrow> Inl err
      | Inr bounds \<Rightarrow> parseValues trimSpace parseFloat stdin bounds)"

text \<open>The average that \<open>printSummary\<close> prints: \<open>sum/samples\<close>.\<close>

definition summary_avg :: "accum \<Rightarrow> f64" where
  "summary_avg st = fdiv (pv_sum st) (pv_count st)"

section \<open>Auxiliary definitions\<close>

text \<open>
  The invariant of the counts of \<open>result\<close> that the scanning loop keeps: every count is a
  float64 other than NaN, and the counts do not decrease along the slice.
\<close>

definition counts_ok :: "promBucket list \<Rightarrow> bool" where
  "counts_ok rs =
     ((\<forall>b\<in>set rs. is_f64 (count b) \<and> \<not> isNaN (count b))
      \<and> (\<forall>j. j + 1 < length rs \<longrightarrow> fle (count (rs ! j)) (count (rs ! (j + 1)))))"

text \<open>
  The finite float64 values (neither NaN nor an infinity), and the operator \<open>==\<close> of Go on
  float64, which is false on a NaN and does not tell the two zeros apart.
\<close>

definition fin64 :: "f64 \<Rightarrow> bool" where
  "fin64 x = (\<not> isNaN x \<and> cls x = 0)"

definition feq :: "f64 \<Rightarrow> f64 \<Rightarrow> bool" where
  "feq x y = (\<not> isNaN x \<and> \<not> isNaN y \<and> cls x = cls y \<and> val x = val y)"

text \<open>
  Instances of the two library parameters for the examples: a \<open>TrimSpace\<close> on texts whose
  only white space is the blank, and a \<open>ParseFloat\<close> on the texts \<open>0\<close> to \<open>5\<close>, \<open>-6\<close>, \<open>NaN\<close>
  and \<open>1.5000000000000004\<close>, the decimal text of the float64 \<open>3/2 + 2^-51\<close> (every other
  text is an error).
\<close>

definition exampleTrimSpace :: "string \<Rightarrow> string" where
  "exampleTrimSpace s =
     rev (dropWhile (\<lambda>c. c = CHR '' '') (rev (dropWhile (\<lambda>c. c = CHR '' '') s)))"

definition exampleParseFloat :: "string \<Rightarrow> f64 option" where
  "exampleParseFloat =
     map_of [(''0'', Fin 0), (''1'', Fin 1), (''2'', Fin 2), (''3'', Fin 3), (''4'', Fin 4),
             (''5'', Fin 5), (''-6'', Fin (- 6)), (''NaN'', NaN),
             (''1.5000000000000004'', Fin (3 / 2 + 1 / 2 ^ 51))]"

section \<open>The quantile estimator\<close>

text \<open>
  \<open>printSummary\<close> calls \<open>bucketQuantile(q, buckets)\<close>, which main.go does not define.  The
  definitions of this section follow section 4.3 of the specification (QuantileEstimator)
  instead.  The rank, the bounds, the counts and the estimate are float64, and every
  operation of the formulas is the float64 operation, rounded on its own; "interpolate
  linearly between lower and upper using the fraction f" is read as
  \<open>lower + (upper - lower) * f\<close>.
\<close>

text \<open>
  Modelled from the spec: the scan of the missing \<open>bucketQuantile\<close>, "scan cumulative
  buckets in order; find the first bucket index i whose cumulativeCount >= target".
\<close>

fun first_reaching :: "f64 \<Rightarrow> promBucket list \<Rightarrow> nat option" where
  "first_reaching target [] = None"
| "first_reaching target (b # bs) =
     (if fge (count b) target then Some 0 else map_option Suc (first_reaching target bs))"

text \<open>
  Modelled from the spec: the lower edge of bucket \<open>i\<close> for the missing \<open>bucketQuantile\<close>,
  0 for the first bucket ("no preceding bound") and "bucket[i-1].upperBound (the lower
  edge)" otherwise.
\<close>

definition lower_edge :: "promBucket list \<Rightarrow> nat \<Rightarrow> f64" where
  "lower_edge bs i = (if i = 0 then fzero else upperBound (bs ! (i - 1)))"

text \<open>
  Modelled from the spec: the fraction of the missing \<open>bucketQuantile\<close> in bucket \<open>i\<close>,
  "target / cumulativeCount[i]" in the first bucket and "(target - cumulativeCount[i-1]) /
  (cumulativeCount[i] - cumulativeCount[i-1])" in the others.
\<close>

definition fraction :: "promBucket list \<Rightarrow> nat \<Rightarrow> f64 \<Rightarrow> f64" where
  "fraction bs i target =
     (if i = 0 then fdiv target (count (bs ! i))
      else fdiv (fsub target (count (bs ! (i - 1))))
                (fsub (count (bs ! i)) (count (bs ! (i - 1)))))"

text \<open>
  Modelled from the spec: the cases of the missing \<open>bucketQuantile\<close> for a given target.
  \<^item> No bucket reaches the target: "return the largest finite upper bound, or +Inf ... if
    the top bucket is the one exceeded" (\<open>+Inf\<close> when there is no finite bound).
  \<^item> The trailing \<open>+Inf\<close> bucket: "return the lower finite edge of that bucket".
  \<^item> Otherwise: "interpolate linearly" between the lower edge and \<open>bucket[i].upperBound\<close>
    using the fraction.
\<close>

definition interpolate :: "promBucket list \<Rightarrow> f64 \<Rightarrow> f64" where
  "interpolate bs target =
     (case first_reaching target bs of
        None \<Rightarrow> (if length bs < 2 then PInf else upperBound (bs ! (length bs - 2)))
      | Some i \<Rightarrow>
          if i + 1 = length bs then lower_edge bs i
          else
            (let lower = lower_edge bs i;
                 upper = upperBound (bs ! i)
             in fadd lower (fmul (fsub upper lower) (fraction bs i target))))"

text \<open>
  Modelled from the spec: the bucket that the missing \<open>bucketQuantile\<close> resolves for the
  rank \<open>q\<close>, with "target = q * sampleCount".
\<close>

definition resolvedBucket :: "accum \<Rightarrow> f64 \<Rightarrow> nat option" where
  "resolvedBucket st q = first_reaching (fmul q (pv_count st)) (pv_result st)"

text \<open>
  Modelled from the spec: the missing \<open>bucketQuantile\<close>, as QuantileEstimator(state, q)
  with "target = q * sampleCount".
\<close>

definition QuantileEstimator :: "accum \<Rightarrow> f64 \<Rightarrow> f64" where
  "QuantileEstimator st q = interpolate (pv_result st) (fmul q (pv_count st))"

section \<open>Properties of float64 rounding and comparison\<close>

lemma pw2_powi: "pw2 e = 2 powi e"
  by (simp add: pw2_def power_int_def inverse_eq_divide power_one_over)

lemma pw2_pos [simp]: "0 < pw2 e"
  by (simp add: pw2_powi)

lemma pw2_add: "pw2 (a + b) = pw2 a * pw2 b"
  by (simp add: pw2_powi power_int_add)

lemma pw2_nat: "0 \<le> e \<Longrightarrow> pw2 e = 2 ^ nat e"
  by (simp add: pw2_def)

lemma pw2_cancel [simp]: "pw2 e * pw2 (- e) = 1" "pw2 (- e) * pw2 e = 1"
  using pw2_add [of e "- e"] pw2_add [of "- e" e] by (simp_all add: pw2_def)

lemma pw2_minus: "pw2 (- e) = 1 / pw2 e"
  by (simp add: pw2_powi power_int_minus inverse_eq_divide)

lemma pw2_mono: "a \<le> b \<Longrightarrow> pw2 a \<le> pw2 b"
  by (simp add: pw2_powi power_int_increasing)

lemma pw2_strict_mono: "a < b \<Longrightarrow> pw2 a < pw2 b"
  by (simp add: pw2_powi power_int_strict_increasing)

lemma pw2_less_iff: "pw2 a < pw2 b \<longleftrightarrow> a < b"
  by (metis pw2_mono pw2_strict_mono not_less)

lemma ilog2_bounds:
  assumes "0 < q"
  shows "pw2 (ilog2 q) \<le> q \<and> q < pw2 (ilog2 q + 1)"
proof (cases "1 \<le> q")
  case True
  define n where "n = \<lfloor>q\<rfloor>"
  have n: "0 < n" using True by (simp add: n_def)
  have k: "ilog2 q = bitlen n - 1" using True by (simp add: ilog2_def n_def)
  have b1: "1 \<le> bitlen n" using n by (simp add: bitlen_alt_def)
  from bitlen_bounds [OF n]
  have lo: "(2::int) ^ nat (bitlen n - 1) \<le> n" and hi: "n < 2 ^ nat (bitlen n)" by auto
  have "pw2 (bitlen n - 1) = of_int (2 ^ nat (bitlen n - 1))"
    using b1 by (simp add: pw2_nat)
  also have "\<dots> \<le> of_int n" using lo by (simp only: of_int_le_iff)
  also have "\<dots> \<le> q" by (simp add: n_def)
  finally have A: "pw2 (ilog2 q) \<le> q" by (simp add: k)
  have "n + 1 \<le> 2 ^ nat (bitlen n)" using hi by simp
  then have "of_int (n + 1) \<le> (of_int (2 ^ nat (bitlen n)) :: real)"
    by (simp only: of_int_le_iff)
  moreover have "q < of_int (n + 1)" by (simp add: n_def)
  ultimately have "q < of_int (2 ^ nat (bitlen n))" by linarith
  also have "\<dots> = pw2 (bitlen n)" using b1 by (simp add: pw2_nat)
  finally have B: "q < pw2 (ilog2 q + 1)" by (simp add: k)
  from A B show ?thesis by simp
next
  case False
  define y where "y = 1 / q"
  have y: "1 < y" using False assms by (simp add: y_def)
  define m where "m = \<lceil>y\<rceil> - 1"
  have m: "0 < m" using y unfolding m_def by linarith
  have k: "ilog2 q = - bitlen m" using False by (simp add: ilog2_def m_def y_def)
  have b1: "1 \<le> bitlen m" using m by (simp add: bitlen_alt_def)
  from bitlen_bounds [OF m]
  have lo: "(2::int) ^ nat (bitlen m - 1) \<le> m" and hi: "m < 2 ^ nat (bitlen m)" by auto
  have "of_int m < y" unfolding m_def by linarith
  with lo have "of_int (2 ^ nat (bitlen m - 1)) < y"
    by (meson le_less_trans of_int_le_iff)
  then have ylo: "pw2 (bitlen m - 1) < y" using b1 by (simp add: pw2_nat)
  have "\<lceil>y\<rceil> \<le> 2 ^ nat (bitlen m)" using hi by (simp add: m_def)
  then have "of_int \<lceil>y\<rceil> \<le> (of_int (2 ^ nat (bitlen m)) :: real)"
    by (simp only: of_int_le_iff)
  then have "y \<le> of_int (2 ^ nat (bitlen m))" by linarith
  then have yhi: "y \<le> pw2 (bitlen m)" using b1 by (simp add: pw2_nat)
  have q: "q = 1 / y" using assms by (simp add: y_def)
  have inv: "\<And>e. 1 / pw2 e = pw2 (- e)"
    by (simp add: pw2_minus)
  have A: "pw2 (- bitlen m) \<le> q"
    using yhi y unfolding q inv [symmetric] by (simp add: frac_le)
  have "1 / y < 1 / pw2 (bitlen m - 1)"
    using ylo by (simp add: frac_less2)
  then have B: "q < pw2 (- bitlen m + 1)" unfolding q inv by simp
  from A B show ?thesis by (simp add: k)
qed

lemma ilog2_unique:
  assumes "pw2 k \<le> q" "q < pw2 (k + 1)"
  shows "ilog2 q = k"
proof -
  have q: "0 < q" using assms(1) pw2_pos [of k] by linarith
  from ilog2_bounds [OF q] have a: "pw2 (ilog2 q) \<le> q" and b: "q < pw2 (ilog2 q + 1)" by auto
  have "pw2 k < pw2 (ilog2 q + 1)" using assms(1) b by linarith
  then have 1: "k < ilog2 q + 1" by (simp add: pw2_less_iff)
  have "pw2 (ilog2 q) < pw2 (k + 1)" using assms(2) a by linarith
  then have 2: "ilog2 q < k + 1" by (simp add: pw2_less_iff)
  from 1 2 show ?thesis by simp
qed

lemma ilog2_mono:
  assumes "0 < a" "a \<le> b"
  shows "ilog2 a \<le> ilog2 b"
proof -
  have b: "0 < b" using assms by simp
  have "pw2 (ilog2 a) \<le> a" using ilog2_bounds [OF assms(1)] by simp
  moreover have "b < pw2 (ilog2 b + 1)" using ilog2_bounds [OF b] by simp
  ultimately have "pw2 (ilog2 a) < pw2 (ilog2 b + 1)" using assms(2) by linarith
  then show ?thesis by (simp add: pw2_less_iff)
qed

lemma rne_of_int [simp]: "rne (of_int n) = n"
  by (simp add: rne_def)

lemma rne_mono:
  assumes "x \<le> y"
  shows "rne x \<le> rne y"
proof (cases "\<lfloor>x\<rfloor> = \<lfloor>y\<rfloor>")
  case True
  then show ?thesis using assms by (auto simp: rne_def Let_def)
next
  case False
  then have "\<lfloor>x\<rfloor> < \<lfloor>y\<rfloor>" using assms floor_mono [of x y] by linarith
  moreover have "rne x \<le> \<lfloor>x\<rfloor> + 1" by (simp add: rne_def Let_def)
  moreover have "\<lfloor>y\<rfloor> \<le> rne y" by (simp add: rne_def Let_def)
  ultimately show ?thesis by linarith
qed

lemma rne_ge: "of_int n \<le> x \<Longrightarrow> n \<le> rne x"
  using rne_mono [of "of_int n" x] by simp

lemma rne_le: "x \<le> of_int n \<Longrightarrow> rne x \<le> n"
  using rne_mono [of x "of_int n"] by simp

lemma expo_ge: "- 1074 \<le> expo q"
  by (simp add: expo_def)

lemma expo_mono: "0 < a \<Longrightarrow> a \<le> b \<Longrightarrow> expo a \<le> expo b"
  using ilog2_mono [of a b] by (simp add: expo_def)

lemma scaled_less:
  assumes "0 < q"
  shows "q * pw2 (- expo q) < 2 ^ 53"
proof -
  have "ilog2 q + 1 \<le> expo q + 53" by (simp add: expo_def)
  then have "pw2 (ilog2 q + 1) \<le> pw2 (expo q + 53)" by (rule pw2_mono)
  with ilog2_bounds [OF assms] have "q < pw2 (expo q + 53)" by linarith
  then have "q * pw2 (- expo q) < pw2 (expo q + 53) * pw2 (- expo q)"
    by (simp add: mult_less_cancel_right_pos)
  also have "\<dots> = pw2 53" by (simp add: pw2_add [symmetric])
  finally show ?thesis by (simp add: pw2_def)
qed

lemma scaled_ge:
  assumes "0 < q" "- 1074 < expo q"
  shows "2 ^ 52 \<le> q * pw2 (- expo q)"
proof -
  have e: "expo q = ilog2 q - 52" using assms(2) by (simp add: expo_def max_def split: if_splits)
  have "pw2 (expo q + 52) \<le> q" using ilog2_bounds [OF assms(1)] by (simp add: e)
  then have "pw2 (expo q + 52) * pw2 (- expo q) \<le> q * pw2 (- expo q)"
    by (simp add: mult_le_cancel_right_pos)
  moreover have "pw2 (expo q + 52) * pw2 (- expo q) = pw2 52" by (simp add: pw2_add [symmetric])
  ultimately show ?thesis by (simp add: pw2_def)
qed

lemma pw2_nonneg [simp]: "0 \<le> pw2 e"
  using pw2_pos [of e] by linarith

lemma rne_scaled_nonneg:
  assumes "0 < q"
  shows "0 \<le> rne (q * pw2 (- expo q))"
proof -
  have "0 \<le> q * pw2 (- expo q)" using assms by (intro mult_nonneg_nonneg) simp_all
  then show ?thesis using rne_ge [of 0] by simp
qed

lemma rnd_pos_nonneg: "0 < q \<Longrightarrow> 0 \<le> rnd_pos q"
  using rne_scaled_nonneg [of q] by (simp add: rnd_pos_def)

lemma rnd_pos_le_top:
  assumes "0 < q"
  shows "rnd_pos q \<le> pw2 (expo q + 53)"
proof -
  have "q * pw2 (- expo q) \<le> of_int (2 ^ 53)" using scaled_less [OF assms] by simp
  then have "rne (q * pw2 (- expo q)) \<le> 2 ^ 53" by (rule rne_le)
  then have "(of_int (rne (q * pw2 (- expo q))) :: real) \<le> of_int (2 ^ 53)"
    by (simp only: of_int_le_iff)
  then have "rnd_pos q \<le> 2 ^ 53 * pw2 (expo q)"
    by (simp add: rnd_pos_def mult_le_cancel_right_pos)
  also have "\<dots> = pw2 (expo q + 53)" by (simp add: pw2_add) (simp add: pw2_def)
  finally show ?thesis .
qed

lemma rnd_pos_ge_bot:
  assumes "0 < q" "- 1074 < expo q"
  shows "pw2 (expo q + 52) \<le> rnd_pos q"
proof -
  have "of_int (2 ^ 52) \<le> q * pw2 (- expo q)" using scaled_ge [OF assms] by simp
  then have "2 ^ 52 \<le> rne (q * pw2 (- expo q))" by (rule rne_ge)
  then have "(of_int (2 ^ 52) :: real) \<le> of_int (rne (q * pw2 (- expo q)))"
    by (simp only: of_int_le_iff)
  then have "2 ^ 52 * pw2 (expo q) \<le> rnd_pos q"
    by (simp add: rnd_pos_def mult_le_cancel_right_pos)
  moreover have "2 ^ 52 * pw2 (expo q) = pw2 (expo q + 52)"
    by (simp add: pw2_add) (simp add: pw2_def)
  ultimately show ?thesis by simp
qed

lemma rnd_pos_mono:
  assumes "0 < a" "a \<le> b"
  shows "rnd_pos a \<le> rnd_pos b"
proof (cases "expo a = expo b")
  case True
  have "a * pw2 (- expo b) \<le> b * pw2 (- expo b)"
    using assms(2) by (simp add: mult_le_cancel_right_pos)
  then have "rne (a * pw2 (- expo b)) \<le> rne (b * pw2 (- expo b))" by (rule rne_mono)
  then have "(of_int (rne (a * pw2 (- expo b))) :: real) \<le> of_int (rne (b * pw2 (- expo b)))"
    by (simp only: of_int_le_iff)
  then show ?thesis by (simp add: rnd_pos_def True mult_le_cancel_right_pos)
next
  case False
  have b: "0 < b" using assms by simp
  have lt: "expo a < expo b" using False expo_mono [OF assms] by simp
  then have "- 1074 < expo b" using expo_ge [of a] by linarith
  then have lo: "pw2 (expo b + 52) \<le> rnd_pos b" using rnd_pos_ge_bot [OF b] by simp
  have "pw2 (expo a + 53) \<le> pw2 (expo b + 52)" using lt by (intro pw2_mono) simp
  with rnd_pos_le_top [OF assms(1)] lo show ?thesis by linarith
qed

lemma rnd_pos_exact:
  assumes "0 < m" "m < 2 ^ 53" "- 1074 \<le> e"
  shows "rnd_pos (of_int m * pw2 e) = of_int m * pw2 e"
proof -
  let ?q = "of_int m * pw2 e :: real"
  have q: "0 < ?q" using assms(1) by simp
  have "of_int m < (of_int (2 ^ 53) :: real)" using assms(2) by (simp only: of_int_less_iff)
  then have "?q < 2 ^ 53 * pw2 e" by (simp add: mult_less_cancel_right_pos)
  also have "\<dots> = pw2 (e + 53)" by (simp add: pw2_add) (simp add: pw2_def)
  finally have "pw2 (ilog2 ?q) < pw2 (e + 53)" using ilog2_bounds [OF q] by linarith
  then have "ilog2 ?q < e + 53" by (simp add: pw2_less_iff)
  then have le: "expo ?q \<le> e" using assms(3) by (simp add: expo_def)
  define d where "d = nat (e - expo ?q)"
  have "pw2 e * pw2 (- expo ?q) = pw2 (e - expo ?q)" by (simp add: pw2_add [symmetric])
  also have "\<dots> = 2 ^ d" using le by (simp add: pw2_def d_def)
  finally have "?q * pw2 (- expo ?q) = of_int (m * 2 ^ d)" by simp
  then have "rne (?q * pw2 (- expo ?q)) = m * 2 ^ d" by (simp only: rne_of_int)
  then have "rnd_pos ?q = of_int m * (2 ^ d * pw2 (expo ?q))" by (simp add: rnd_pos_def)
  also have "2 ^ d * pw2 (expo ?q) = pw2 (e - expo ?q) * pw2 (expo ?q)"
    using le by (simp add: pw2_def d_def)
  also have "\<dots> = pw2 e" by (simp add: pw2_add [symmetric])
  finally show ?thesis .
qed

lemma rnd_pos_zero: "rnd_pos 0 = 0"
  using rne_of_int [of 0] by (simp add: rnd_pos_def)

lemma rnd_pos_idem:
  assumes "0 < q"
  shows "rnd_pos (rnd_pos q) = rnd_pos q"
proof -
  define m where "m = rne (q * pw2 (- expo q))"
  have r: "rnd_pos q = of_int m * pw2 (expo q)" by (simp add: rnd_pos_def m_def)
  have m0: "0 \<le> m" using rne_scaled_nonneg [OF assms] by (simp add: m_def)
  have "q * pw2 (- expo q) \<le> of_int (2 ^ 53)" using scaled_less [OF assms] by simp
  then have m1: "m \<le> 2 ^ 53" unfolding m_def by (rule rne_le)
  consider "m = 0" | "0 < m" "m < 2 ^ 53" | "m = 2 ^ 53" using m0 m1 by linarith
  then show ?thesis
  proof cases
    case 1
    then have "rnd_pos q = 0" by (simp add: r)
    then show ?thesis by (simp add: rnd_pos_zero)
  next
    case 2
    then show ?thesis unfolding r using expo_ge [of q] by (intro rnd_pos_exact) auto
  next
    case 3
    have "rnd_pos q = of_int (2 ^ 52) * pw2 (expo q + 1)"
      by (simp add: r 3 pw2_add) (simp add: pw2_def)
    moreover have "rnd_pos (of_int (2 ^ 52) * pw2 (expo q + 1)) = of_int (2 ^ 52) * pw2 (expo q + 1)"
      using expo_ge [of q] by (intro rnd_pos_exact) auto
    ultimately show ?thesis by simp
  qed
qed

lemma fle_trans: "fle x y \<Longrightarrow> fle y z \<Longrightarrow> fle x z"
  by (auto simp: fle_def)

lemma flt_fle_trans: "flt x y \<Longrightarrow> fle y z \<Longrightarrow> flt x z"
  by (auto simp: fle_def flt_def)

lemma rnd_not_NaN [simp]: "rnd q \<noteq> NaN"
  by (simp add: rnd_def Let_def)

lemma rnd_pos_pos_idem: "0 < q \<Longrightarrow> rnd_pos q \<noteq> 0 \<Longrightarrow> 0 < rnd_pos q"
  using rnd_pos_nonneg [of q] by linarith

lemma rnd_is_f64: "is_f64 (rnd q)"
proof -
  consider "q = 0" | "0 < q" | "q < 0" by linarith
  then show ?thesis
  proof cases
    case 1
    then show ?thesis by (simp add: rnd_def)
  next
    case 2
    show ?thesis
    proof (cases "rnd_pos q = 0")
      case True
      then show ?thesis using 2 by (simp add: rnd_def Let_def)
    next
      case False
      then have "0 < rnd_pos q" using 2 by (rule rnd_pos_pos_idem [rotated])
      then show ?thesis using 2 rnd_pos_idem [OF 2] by (simp add: rnd_def Let_def)
    qed
  next
    case 3
    then have q: "0 < - q" by simp
    show ?thesis
    proof (cases "rnd_pos (- q) = 0")
      case True
      then show ?thesis using 3 by (simp add: rnd_def Let_def)
    next
      case False
      then have "0 < rnd_pos (- q)" using q by (rule rnd_pos_pos_idem [rotated])
      then show ?thesis using 3 False rnd_pos_idem [OF q] by (simp add: rnd_def Let_def)
    qed
  qed
qed

lemma rnd_mono:
  assumes "a \<le> b"
  shows "fle (rnd a) (rnd b)"
proof -
  have pos: "\<And>q. 0 < q \<Longrightarrow> fle (Fin 0) (rnd q)"
    using rnd_pos_nonneg by (simp add: rnd_def Let_def fle_def isNaN_def)
  have neg: "\<And>q. q < 0 \<Longrightarrow> fle (rnd q) (Fin 0)"
  proof -
    fix q :: real assume "q < 0"
    then have "0 \<le> rnd_pos (- q)" using rnd_pos_nonneg [of "- q"] by simp
    then show "fle (rnd q) (Fin 0)" using \<open>q < 0\<close>
      by (simp add: rnd_def Let_def fle_def isNaN_def)
  qed
  have z: "rnd 0 = Fin 0" by (simp add: rnd_def)
  consider "0 < a" | "b < 0" | "a = 0" "b = 0" | "a = 0" "0 < b" | "a < 0" "b = 0" | "a < 0" "0 < b"
    using assms by linarith
  then show ?thesis
  proof cases
    case 1
    then have b: "0 < b" using assms by simp
    from rnd_pos_mono [OF 1 assms] show ?thesis using 1 b
      by (simp add: rnd_def Let_def fle_def isNaN_def)
  next
    case 2
    then have a: "a < 0" using assms by simp
    have "rnd_pos (- b) \<le> rnd_pos (- a)" using 2 assms by (intro rnd_pos_mono) simp_all
    moreover have "0 \<le> rnd_pos (- b)" using 2 by (intro rnd_pos_nonneg) simp
    ultimately show ?thesis using 2 a
      by (simp add: rnd_def Let_def fle_def isNaN_def)
  next
    case 3
    then show ?thesis by (simp add: z fle_def isNaN_def)
  next
    case 4
    then show ?thesis using pos [of b] by (simp add: z)
  next
    case 5
    then show ?thesis using neg [of a] by (simp add: z)
  next
    case 6
    then show ?thesis using fle_trans [OF neg [of a] pos [of b]] by simp
  qed
qed

lemma fle_rnd_self: "is_f64 (Fin q) \<Longrightarrow> q \<le> r \<Longrightarrow> fle (Fin q) (rnd r)"
  using rnd_mono [of q r] by simp

lemma rnd_int:
  assumes "\<bar>n\<bar> < 2 ^ 53"
  shows "rnd (of_int n) = Fin (of_int n)"
proof -
  have big: "\<And>m::int. m < 2 ^ 53 \<Longrightarrow> (of_int m :: real) < pw2 1024"
  proof -
    fix m :: int assume "m < 2 ^ 53"
    then have "(of_int m :: real) < of_int (2 ^ 53)" by (simp only: of_int_less_iff)
    also have "\<dots> = pw2 53" by (simp add: pw2_def)
    also have "\<dots> \<le> pw2 1024" by (rule pw2_mono) simp
    finally show "(of_int m :: real) < pw2 1024" .
  qed
  consider "n = 0" | "0 < n" | "n < 0" by linarith
  then show ?thesis
  proof cases
    case 1
    then show ?thesis by (simp add: rnd_def)
  next
    case 2
    then have "rnd_pos (of_int n * pw2 0) = of_int n * pw2 0"
      using assms by (intro rnd_pos_exact) auto
    then have "rnd_pos (of_int n) = of_int n" by (simp add: pw2_def)
    then show ?thesis using 2 big [of n] assms by (simp add: rnd_def Let_def)
  next
    case 3
    then have "rnd_pos (of_int (- n) * pw2 0) = of_int (- n) * pw2 0"
      using assms by (intro rnd_pos_exact) auto
    then have "rnd_pos (- of_int n) = - of_int n" by (simp add: pw2_def)
    then show ?thesis using 3 big [of "- n"] assms by (simp add: rnd_def Let_def)
  qed
qed

lemma rnd_numeral [simp]:
  "(numeral k :: int) < 2 ^ 53 \<Longrightarrow> rnd (numeral k) = Fin (numeral k)"
  using rnd_int [of "numeral k"] by simp

lemma rnd_one [simp]: "rnd 1 = Fin 1"
  using rnd_int [of 1] by simp

lemma rnd_zero [simp]: "rnd 0 = Fin 0"
  by (simp add: rnd_def)

lemma pw2_neq0 [simp]: "pw2 e \<noteq> 0"
  using pw2_pos [of e] by linarith

lemma rnd_exact:
  assumes "0 < m" "m < 2 ^ 53" "- 1074 \<le> e" "e \<le> 971"
  shows "rnd (of_int m * pw2 e) = Fin (of_int m * pw2 e)"
proof -
  let ?q = "of_int m * pw2 e :: real"
  have q: "0 < ?q" using assms(1) by simp
  have "of_int m < (of_int (2 ^ 53) :: real)" using assms(2) by (simp only: of_int_less_iff)
  then have "?q < 2 ^ 53 * pw2 e" by (simp add: mult_less_cancel_right_pos)
  also have "\<dots> = pw2 (e + 53)" by (simp add: pw2_add) (simp add: pw2_def)
  also have "\<dots> \<le> pw2 1024" using assms(4) by (intro pw2_mono) simp
  finally have "?q < pw2 1024" .
  then show ?thesis
    using q rnd_pos_exact [OF assms(1-3)] by (simp add: rnd_def Let_def)
qed

lemma rnd_overflow:
  assumes "pw2 1024 \<le> q"
  shows "rnd q = PInf"
proof -
  have "rnd_pos (of_int 1 * pw2 1024) = of_int 1 * pw2 1024"
    by (intro rnd_pos_exact) simp_all
  then have "rnd_pos (pw2 1024) = pw2 1024" by simp
  moreover have "rnd_pos (pw2 1024) \<le> rnd_pos q" using assms by (intro rnd_pos_mono) simp_all
  ultimately have "pw2 1024 \<le> rnd_pos q" by simp
  moreover have "0 < q" using assms pw2_pos [of 1024] by linarith
  ultimately show ?thesis by (simp add: rnd_def Let_def)
qed

lemma fadd_Fin: "fadd (Fin a) (Fin b) = rnd (a + b)"
  by (simp add: fadd_def isNaN_def is_inf_def)

lemma ilog2_pw2: "ilog2 (pw2 k) = k"
  by (rule ilog2_unique) (simp_all add: pw2_strict_mono)

lemma scaled_ge_normal:
  assumes "pw2 (- 1022) \<le> q"
  shows "2 ^ 52 \<le> q * pw2 (- expo q)"
proof -
  have q: "0 < q" using assms pw2_pos [of "- 1022"] by linarith
  have "ilog2 (pw2 (- 1022)) \<le> ilog2 q" using assms by (intro ilog2_mono) simp_all
  then have "- 1022 \<le> ilog2 q" by (simp add: ilog2_pw2)
  then have e: "expo q = ilog2 q - 52" by (simp add: expo_def)
  have "pw2 (expo q + 52) \<le> q" using ilog2_bounds [OF q] by (simp add: e)
  then have "pw2 (expo q + 52) * pw2 (- expo q) \<le> q * pw2 (- expo q)"
    by (simp add: mult_le_cancel_right_pos)
  moreover have "pw2 (expo q + 52) * pw2 (- expo q) = pw2 52" by (simp add: pw2_add [symmetric])
  ultimately show ?thesis by (simp add: pw2_def)
qed

lemma is_f64_pos_decompose:
  assumes "is_f64 (Fin q)" "0 < q"
  shows "q = of_int (rne (q * pw2 (- expo q))) * pw2 (expo q)"
    and "q * pw2 (- expo q) = of_int (rne (q * pw2 (- expo q)))"
    and "q < pw2 1024"
proof -
  have r: "rnd_pos q = q \<and> q < pw2 1024"
    using assms by (simp add: rnd_def Let_def split: if_splits)
  then show 1: "q = of_int (rne (q * pw2 (- expo q))) * pw2 (expo q)"
    by (simp add: rnd_pos_def)
  show "q * pw2 (- expo q) = of_int (rne (q * pw2 (- expo q)))"
  proof -
    have "q * pw2 (- expo q) = of_int (rne (q * pw2 (- expo q))) * (pw2 (expo q) * pw2 (- expo q))"
      using 1 by (metis mult.assoc)
    then show ?thesis by simp
  qed
  show "q < pw2 1024" using r by simp
qed

lemma is_f64_gt_one:
  assumes "is_f64 (Fin r)" "1 < r"
  shows "1 + pw2 (- 52) \<le> r"
proof -
  have r0: "0 < r" using assms(2) by simp
  have "ilog2 (pw2 0) \<le> ilog2 r" using assms(2) by (intro ilog2_mono) (simp_all add: pw2_def)
  then have l: "0 \<le> ilog2 r" by (simp add: ilog2_pw2)
  show ?thesis
  proof (cases "ilog2 r = 0")
    case True
    then have e: "expo r = - 52" by (simp add: expo_def)
    define F where "F = rne (r * pw2 (- expo r))"
    have d: "r = of_int F * pw2 (- 52)"
      using is_f64_pos_decompose(1) [OF assms(1) r0] by (simp add: F_def e)
    have "of_int F = r * pw2 52"
      using is_f64_pos_decompose(2) [OF assms(1) r0] by (simp add: F_def e)
    moreover have "1 * pw2 52 < r * pw2 52" using assms(2) by (simp only: mult_less_cancel_right_pos pw2_pos)
    ultimately have "(of_int (2 ^ 52) :: real) < of_int F" by (simp add: pw2_def)
    then have "2 ^ 52 < F" by (simp only: of_int_less_iff)
    then have "2 ^ 52 + 1 \<le> F" by simp
    then have "(of_int (2 ^ 52 + 1) :: real) \<le> of_int F" by (simp only: of_int_le_iff)
    then have A: "of_int (2 ^ 52 + 1) * pw2 (- 52) \<le> of_int F * pw2 (- 52)"
      by (simp only: mult_le_cancel_right_pos pw2_pos)
    have B: "(of_int (2 ^ 52 + 1) :: real) * pw2 (- 52) = 1 + pw2 (- 52)"
      by (simp add: pw2_def)
    from A have "1 + pw2 (- 52) \<le> of_int F * pw2 (- 52)" by (simp only: B)
    then show ?thesis by (subst d)
  next
    case False
    then have "1 \<le> ilog2 r" using l by simp
    then have "pw2 1 \<le> pw2 (ilog2 r)" by (rule pw2_mono)
    then have "2 \<le> r" using ilog2_bounds [OF r0] by (simp add: pw2_def)
    moreover have "pw2 (- 52) \<le> pw2 0" by (rule pw2_mono) simp
    ultimately show ?thesis by (simp add: pw2_def)
  qed
qed

lemma rnd_mult_strict:
  assumes "is_f64 (Fin q)" "pw2 (- 1022) \<le> q" "1 + pw2 (- 52) \<le> r"
  shows "flt (Fin q) (rnd (q * r))"
proof -
  have q0: "0 < q" using assms(2) pw2_pos [of "- 1022"] by linarith
  define M where "M = rne (q * pw2 (- expo q))"
  define e where "e = expo q"
  have d: "q = of_int M * pw2 e"
    using is_f64_pos_decompose(1) [OF assms(1) q0] by (simp add: M_def e_def)
  have s: "q * pw2 (- e) = of_int M"
    using is_f64_pos_decompose(2) [OF assms(1) q0] by (simp add: M_def e_def)
  have "(of_int (2 ^ 52) :: real) \<le> of_int M"
    using scaled_ge_normal [OF assms(2)] s by (simp add: e_def)
  then have M52: "2 ^ 52 \<le> M" by (simp only: of_int_le_iff)
  have "of_int M < (of_int (2 ^ 53) :: real)" using scaled_less [OF q0] s by (simp add: e_def)
  then have M53: "M < 2 ^ 53" by (simp only: of_int_less_iff)
  have e0: "- 1074 \<le> e" by (simp add: e_def expo_ge)
  define q' where "q' = (of_int (M + 1) :: real) * pw2 e"
  have lt: "q < q'" by (simp add: d q'_def algebra_simps)
  have "pw2 e = 2 ^ 52 * pw2 (- 52) * pw2 e" by (simp add: pw2_def)
  also have "\<dots> \<le> of_int M * pw2 (- 52) * pw2 e"
    using \<open>(of_int (2 ^ 52) :: real) \<le> of_int M\<close> by (simp add: mult_le_cancel_right_pos)
  also have "\<dots> = q * pw2 (- 52)" by (simp add: d)
  finally have "q + pw2 e \<le> q + q * pw2 (- 52)" by simp
  also have "\<dots> = q * (1 + pw2 (- 52))" by (simp add: algebra_simps)
  also have "\<dots> \<le> q * r" using assms(3) q0 by (simp add: mult_le_cancel_left_pos)
  finally have "q' \<le> q * r" by (simp add: q'_def d algebra_simps)
  then have le: "fle (rnd q') (rnd (q * r))" by (rule rnd_mono)
  have ex: "rnd_pos q' = q'"
  proof (cases "M + 1 < 2 ^ 53")
    case True
    then show ?thesis unfolding q'_def using M52 e0 by (intro rnd_pos_exact) auto
  next
    case False
    then have "M + 1 = 2 ^ 53" using M53 by simp
    then have "q' = of_int (2 ^ 52) * pw2 (e + 1)"
      by (simp add: q'_def pw2_add) (simp add: pw2_def)
    moreover have "rnd_pos (of_int (2 ^ 52) * pw2 (e + 1)) = of_int (2 ^ 52) * pw2 (e + 1)"
      using e0 by (intro rnd_pos_exact) auto
    ultimately show ?thesis by simp
  qed
  have "0 < q'" using lt q0 by linarith
  then have "flt (Fin q) (rnd q')" using lt ex
    by (simp add: rnd_def Let_def flt_def isNaN_def)
  then show ?thesis using le by (rule flt_fle_trans)
qed

lemma rnd_tie_2p53: "rnd 9007199254740993 = Fin 9007199254740992"
  by (simp add: rnd_def rnd_pos_def expo_def ilog2_def rne_def pw2_def Let_def compute_bitlen)

lemma rnd_2p1024: "rnd (pw2 1023 * 2) = PInf"
proof -
  have "pw2 1023 * 2 = pw2 (1023 + 1)" by (simp only: pw2_add) (simp add: pw2_def)
  then have "pw2 1024 \<le> pw2 1023 * 2" by simp
  then show ?thesis by (rule rnd_overflow)
qed

lemma is_f64_2p1023: "is_f64 (Fin (pw2 1023))"
proof -
  have "pw2 1023 = pw2 52 * pw2 971" using pw2_add [of 52 971] by simp
  moreover have "pw2 52 = of_int (2 ^ 52)" by (simp add: pw2_nat)
  ultimately have "pw2 1023 = of_int (2 ^ 52) * pw2 971" by simp
  moreover have "rnd (of_int (2 ^ 52) * pw2 971) = Fin (of_int (2 ^ 52) * pw2 971)"
    by (rule rnd_exact) simp_all
  ultimately show ?thesis by simp
qed

lemma fmul_step:
  assumes "is_f64 b" "is_f64 f" "flt fzero b" "flt fone f"
  shows "is_f64 (fmul b f) \<and> flt fzero (fmul b f) \<and> fle b (fmul b f)
         \<and> (fle (Fin (pw2 (- 1022))) b \<and> b \<noteq> PInf \<longrightarrow> flt b (fmul b f))"
proof -
  have b: "b = PInf \<or> (\<exists>q. b = Fin q \<and> 0 < q)"
    using assms(3) by (cases b) (simp_all add: flt_def fzero_def isNaN_def)
  have f: "f = PInf \<or> (\<exists>r. f = Fin r \<and> 1 < r)"
    using assms(4) by (cases f) (simp_all add: flt_def fone_def isNaN_def)
  from b show ?thesis
  proof
    assume "b = PInf"
    then show ?thesis using f
      by (auto simp: fmul_def flt_def fle_def isNaN_def is_inf_def is_zero_def fzero_def)
  next
    assume "\<exists>q. b = Fin q \<and> 0 < q"
    then obtain q where q: "b = Fin q" "0 < q" by blast
    from f show ?thesis
    proof
      assume "f = PInf"
      then show ?thesis using q
        by (auto simp: fmul_def flt_def fle_def isNaN_def is_inf_def is_zero_def fzero_def)
    next
      assume "\<exists>r. f = Fin r \<and> 1 < r"
      then obtain r where r: "f = Fin r" "1 < r" by blast
      have m: "fmul b f = rnd (q * r)"
        using q r by (simp add: fmul_def isNaN_def is_inf_def is_zero_def)
      have "q * 1 \<le> q * r" using q(2) r(2) by simp
      then have le: "fle (Fin q) (rnd (q * r))"
        using assms(1) q(1) by (intro fle_rnd_self) simp_all
      have pos: "flt fzero (rnd (q * r))"
        using assms(3) le unfolding q(1) by (rule flt_fle_trans)
      have strict: "flt (Fin q) (rnd (q * r))" if "fle (Fin (pw2 (- 1022))) (Fin q)"
      proof -
        have "pw2 (- 1022) \<le> q" using that by (simp add: fle_def isNaN_def)
        moreover have "1 + pw2 (- 52) \<le> r"
          using assms(2) r by (intro is_f64_gt_one) simp_all
        ultimately show ?thesis using assms(1) q(1) by (intro rnd_mult_strict) simp_all
      qed
      show ?thesis unfolding q(1) using le pos strict by (simp add: m [unfolded q(1)] rnd_is_f64)
    qed
  qed
qed

lemma fmul_iter:
  assumes "is_f64 start" "is_f64 factor" "flt fzero start" "flt fone factor"
  shows "is_f64 (((\<lambda>x. fmul x factor) ^^ k) start) \<and> flt fzero (((\<lambda>x. fmul x factor) ^^ k) start)"
proof (induction k)
  case 0
  then show ?case using assms by simp
next
  case (Suc k)
  then show ?case using fmul_step [OF _ assms(2) _ assms(4)] by simp
qed

lemma rnd_neg_numeral [simp]:
  "(numeral k :: int) < 2 ^ 53 \<Longrightarrow> rnd (- numeral k) = Fin (- numeral k)"
  using rnd_int [of "- numeral k"] by simp

lemma count_iter_fin:
  "\<exists>r. ((\<lambda>c. fadd c fone) ^^ n) fzero = Fin r \<and> 0 \<le> r \<and> r \<le> 2 ^ 53 \<and> (0 < n \<longrightarrow> 1 \<le> r)"
proof (induction n)
  case 0
  then show ?case by (simp add: fzero_def)
next
  case (Suc n)
  then obtain r where r: "((\<lambda>c. fadd c fone) ^^ n) fzero = Fin r" "0 \<le> r" "r \<le> 2 ^ 53"
    by blast
  have "((\<lambda>c. fadd c fone) ^^ Suc n) fzero = fadd (Fin r) fone"
    by (simp add: r(1))
  then have s: "((\<lambda>c. fadd c fone) ^^ Suc n) fzero = rnd (r + 1)"
    by (simp only: fone_def fadd_Fin)
  have "fle (rnd 1) (rnd (r + 1))" using r(2) by (intro rnd_mono) simp
  then have lo: "fle (Fin 1) (rnd (r + 1))" by simp
  have "fle (rnd (r + 1)) (rnd 9007199254740993)" using r(3) by (intro rnd_mono) simp
  then have hi: "fle (rnd (r + 1)) (Fin 9007199254740992)" by (simp only: rnd_tie_2p53)
  from lo hi obtain r' where "rnd (r + 1) = Fin r'" "1 \<le> r'" "r' \<le> 2 ^ 53"
    by (cases "rnd (r + 1)") (simp_all add: fle_def isNaN_def)
  then show ?case using s by auto
qed

text \<open>
  The finite float64 values are exactly the numbers \<open>m * 2^e\<close> with \<open>|m| < 2^53\<close> and
  \<open>-1074 <= e <= 971\<close>: the subnormal and normal numbers of binary64.
\<close>

lemma rnd_minus_exact:
  assumes "0 < m" "m < 2 ^ 53" "- 1074 \<le> e" "e \<le> 971"
  shows "rnd (- (of_int m * pw2 e)) = Fin (- (of_int m * pw2 e))"
proof -
  let ?q = "of_int m * pw2 e :: real"
  have q: "0 < ?q" using assms(1) by simp
  have "rnd ?q = Fin ?q" using assms by (rule rnd_exact)
  then have "rnd_pos ?q = ?q \<and> ?q < pw2 1024"
    using q by (simp add: rnd_def Let_def split: if_splits)
  then show ?thesis using q by (simp add: rnd_def Let_def)
qed

lemma expo_le_971:
  assumes "0 < q" "q < pw2 1024"
  shows "expo q \<le> 971"
proof -
  have "pw2 (ilog2 q) < pw2 1024" using ilog2_bounds [OF assms(1)] assms(2) by linarith
  then have "ilog2 q < 1024" by (simp add: pw2_less_iff)
  then show ?thesis by (simp add: expo_def)
qed

lemma is_f64_pos_binary64:
  assumes "is_f64 (Fin q)" "0 < q"
  shows "\<exists>m e. 0 < m \<and> m < 2 ^ 53 \<and> - 1074 \<le> e \<and> e \<le> 971 \<and> q = of_int m * pw2 e"
proof -
  define m where "m = rne (q * pw2 (- expo q))"
  have d: "q = of_int m * pw2 (expo q)"
    using is_f64_pos_decompose(1) [OF assms] by (simp add: m_def)
  have s: "q * pw2 (- expo q) = of_int m"
    using is_f64_pos_decompose(2) [OF assms] by (simp add: m_def)
  have "of_int m < (of_int (2 ^ 53) :: real)" using scaled_less [OF assms(2)] s by simp
  then have 1: "m < 2 ^ 53" by (simp only: of_int_less_iff)
  have "0 < q * pw2 (- expo q)" using assms(2) by simp
  then have "(0::real) < of_int m" by (simp only: s)
  then have 2: "0 < m" by simp
  have 3: "expo q \<le> 971"
    using assms(2) is_f64_pos_decompose(3) [OF assms] by (rule expo_le_971)
  show ?thesis using 1 2 3 d expo_ge [of q] by blast
qed

lemma is_f64_iff_binary64:
  "is_f64 (Fin q) \<longleftrightarrow>
     (\<exists>m e. \<bar>m\<bar> < 2 ^ 53 \<and> - 1074 \<le> e \<and> e \<le> 971 \<and> q = of_int m * pw2 e)"
proof
  assume v: "is_f64 (Fin q)"
  consider "q = 0" | "0 < q" | "q < 0" by linarith
  then show "\<exists>m e. \<bar>m\<bar> < 2 ^ 53 \<and> - 1074 \<le> e \<and> e \<le> 971 \<and> q = of_int m * pw2 e"
  proof cases
    case 1
    then have "\<bar>0::int\<bar> < 2 ^ 53 \<and> - 1074 \<le> (0::int) \<and> (0::int) \<le> 971 \<and> q = of_int 0 * pw2 0"
      by simp
    then show ?thesis by blast
  next
    case 2
    from is_f64_pos_binary64 [OF v 2] obtain m e
      where "0 < m" "m < 2 ^ 53" "- 1074 \<le> e" "e \<le> 971" "q = of_int m * pw2 e" by blast
    then have "\<bar>m\<bar> < 2 ^ 53 \<and> - 1074 \<le> e \<and> e \<le> 971 \<and> q = of_int m * pw2 e" by simp
    then show ?thesis by blast
  next
    case 3
    then have n: "0 < - q" by simp
    have r: "rnd_pos (- q) = - q \<and> - q < pw2 1024"
      using v 3 by (simp add: rnd_def Let_def split: if_splits)
    then have "rnd (- q) = Fin (- q)" using n by (simp add: rnd_def Let_def)
    then have "is_f64 (Fin (- q))" by simp
    from is_f64_pos_binary64 [OF this n] obtain m e
      where "0 < m" "m < 2 ^ 53" "- 1074 \<le> e" "e \<le> 971" "- q = of_int m * pw2 e" by blast
    then have "\<bar>- m\<bar> < 2 ^ 53 \<and> - 1074 \<le> e \<and> e \<le> 971 \<and> q = of_int (- m) * pw2 e"
      by (simp add: minus_equation_iff [of q])
    then show ?thesis by blast
  qed
next
  assume "\<exists>m e. \<bar>m\<bar> < 2 ^ 53 \<and> - 1074 \<le> e \<and> e \<le> 971 \<and> q = of_int m * pw2 e"
  then obtain m e where h: "\<bar>m\<bar> < 2 ^ 53" "- 1074 \<le> e" "e \<le> 971" "q = of_int m * pw2 e"
    by blast
  consider "m = 0" | "0 < m" | "m < 0" by linarith
  then show "is_f64 (Fin q)"
  proof cases
    case 1
    then show ?thesis using h by simp
  next
    case 2
    then show ?thesis using h rnd_exact [of m e] by simp
  next
    case 3
    then have "rnd (- (of_int (- m) * pw2 e)) = Fin (- (of_int (- m) * pw2 e))"
      using h by (intro rnd_minus_exact) simp_all
    then show ?thesis using h by simp
  qed
qed

section \<open>Evaluation on concrete inputs\<close>

lemmas eval_float = fadd_def fsub_def fmul_def fdiv_def fle_def flt_def fge_def fgt_def isNaN_def
  is_inf_def is_zero_def fzero_def fone_def

lemmas eval_loops = search_loop.simps incrementFrom.simps linear_loop.simps
  exponential_loop.simps

lemmas eval_prog = linearBuckets_def exponentialBuckets_def parseValues_def newResult_def
  observe_def SearchFloat64s_def Search_def Let_def

lemmas eval_example = exampleTrimSpace_def exampleParseFloat_def

section \<open>The bucket builders\<close>

lemma linear_loop_length [simp]: "length (linear_loop bs i s w) = length bs"
  by (induction bs i s w rule: linear_loop.induct) (subst linear_loop.simps, simp)

lemma linear_loop_nth:
  "k < length bs \<Longrightarrow>
   linear_loop bs i s w ! k = (if k < i then bs ! k else ((\<lambda>x. fadd x w) ^^ (k - i)) s)"
proof (induction bs i s w rule: linear_loop.induct)
  case (1 buckets i start width)
  show ?case
  proof (cases "i < length buckets")
    case True
    have step: "linear_loop buckets i start width
                = linear_loop (buckets[i := start]) (i + 1) (fadd start width) width"
      using True by (subst linear_loop.simps) simp
    have IH: "linear_loop (buckets[i := start]) (i + 1) (fadd start width) width ! k
              = (if k < i + 1 then buckets[i := start] ! k
                 else ((\<lambda>x. fadd x width) ^^ (k - (i + 1))) (fadd start width))"
      using "1.IH" [OF True] "1.prems" by simp
    consider "k < i" | "k = i" | "i < k" by linarith
    then show ?thesis
    proof cases
      case 1
      then show ?thesis using IH step by simp
    next
      case 2
      then show ?thesis using IH step True by simp
    next
      case 3
      then have "k - i = Suc (k - (i + 1))" by simp
      then have "((\<lambda>x. fadd x width) ^^ (k - i)) start
                 = ((\<lambda>x. fadd x width) ^^ (k - (i + 1))) (fadd start width)"
        by (simp only: funpow_Suc_right o_apply)
      then show ?thesis using IH step 3 by simp
    qed
  next
    case False
    then show ?thesis using "1.prems" by (subst linear_loop.simps) simp
  qed
qed

lemma exponential_loop_length [simp]: "length (exponential_loop bs i s w) = length bs"
  by (induction bs i s w rule: exponential_loop.induct) (subst exponential_loop.simps, simp)

lemma exponential_loop_nth:
  "k < length bs \<Longrightarrow>
   exponential_loop bs i s w ! k = (if k < i then bs ! k else ((\<lambda>x. fmul x w) ^^ (k - i)) s)"
proof (induction bs i s w rule: exponential_loop.induct)
  case (1 buckets i start factor)
  show ?case
  proof (cases "i < length buckets")
    case True
    have step: "exponential_loop buckets i start factor
                = exponential_loop (buckets[i := start]) (i + 1) (fmul start factor) factor"
      using True by (subst exponential_loop.simps) simp
    have IH: "exponential_loop (buckets[i := start]) (i + 1) (fmul start factor) factor ! k
              = (if k < i + 1 then buckets[i := start] ! k
                 else ((\<lambda>x. fmul x factor) ^^ (k - (i + 1))) (fmul start factor))"
      using "1.IH" [OF True] "1.prems" by simp
    consider "k < i" | "k = i" | "i < k" by linarith
    then show ?thesis
    proof cases
      case 1
      then show ?thesis using IH step by simp
    next
      case 2
      then show ?thesis using IH step True by simp
    next
      case 3
      then have "k - i = Suc (k - (i + 1))" by simp
      then have "((\<lambda>x. fmul x factor) ^^ (k - i)) start
                 = ((\<lambda>x. fmul x factor) ^^ (k - (i + 1))) (fmul start factor)"
        by (simp only: funpow_Suc_right o_apply)
      then show ?thesis using IH step 3 by simp
    qed
  next
    case False
    then show ?thesis using "1.prems" by (subst exponential_loop.simps) simp
  qed
qed

lemma linearBuckets_Inr:
  "1 \<le> n \<Longrightarrow> linearBuckets start width n
     = Inr (map (\<lambda>k. ((\<lambda>x. fadd x width) ^^ k) start) [0..<nat n])"
  by (simp add: linearBuckets_def list_eq_iff_nth_eq linear_loop_nth)

lemma exponentialBuckets_Inr:
  "1 \<le> n \<Longrightarrow> \<not> fle start fzero \<Longrightarrow> \<not> fle factor fone \<Longrightarrow>
   exponentialBuckets start factor n
     = Inr (map (\<lambda>k. ((\<lambda>x. fmul x factor) ^^ k) start) [0..<nat n])"
  by (simp add: exponentialBuckets_def list_eq_iff_nth_eq exponential_loop_nth)

lemma linear_exact:
  assumes "\<forall>j\<le>k. \<bar>s + int j * w\<bar> < 2 ^ 53"
  shows "((\<lambda>x. fadd x (Fin (of_int w))) ^^ k) (Fin (of_int s)) = Fin (of_int (s + int k * w))"
  using assms
proof (induction k)
  case 0
  then show ?case by simp
next
  case (Suc k)
  have IH: "((\<lambda>x. fadd x (Fin (of_int w))) ^^ k) (Fin (of_int s)) = Fin (of_int (s + int k * w))"
    using Suc.prems by (intro Suc.IH) auto
  have b: "\<bar>s + int (Suc k) * w\<bar> < 2 ^ 53" using Suc.prems by blast
  have e: "(of_int (s + int k * w) + of_int w :: real) = of_int (s + int (Suc k) * w)"
    by (simp add: algebra_simps)
  have "((\<lambda>x. fadd x (Fin (of_int w))) ^^ Suc k) (Fin (of_int s))
        = fadd (Fin (of_int (s + int k * w))) (Fin (of_int w))"
    by (simp add: IH)
  also have "\<dots> = rnd (of_int (s + int (Suc k) * w))"
    by (simp only: fadd_Fin e)
  also have "\<dots> = Fin (of_int (s + int (Suc k) * w))"
    using b by (rule rnd_int)
  finally show ?case .
qed

text \<open>
  Claim C6, as amended.  For every start, every width and every count of at least 1,
  \<open>linearBuckets\<close> succeeds and returns exactly \<open>count\<close> bounds: the first is \<open>start\<close>, and
  each next one is the float64 sum of the previous bound and \<open>width\<close>, rounded at every
  step.  Where start and width are integers and no bound leaves the range in which
  float64 holds every integer (below \<open>2^53\<close> in magnitude), the bound of index \<open>k\<close> is
  exactly \<open>start + k * width\<close>.
\<close>

theorem linearBuckets_progression:
  assumes "1 \<le> n"
  shows "\<exists>bs. linearBuckets start width n = Inr bs \<and> length bs = nat n \<and> bs ! 0 = start
           \<and> (\<forall>k. k + 1 < nat n \<longrightarrow> bs ! (k + 1) = fadd (bs ! k) width)
           \<and> (\<forall>s w. start = Fin (of_int s) \<and> width = Fin (of_int w)
                     \<and> (\<forall>k<nat n. \<bar>s + int k * w\<bar> < 2 ^ 53)
                 \<longrightarrow> (\<forall>k<nat n. bs ! k = Fin (of_int (s + int k * w))))"
proof -
  let ?bs = "map (\<lambda>k. ((\<lambda>x. fadd x width) ^^ k) start) [0..<nat n]"
  have 1: "linearBuckets start width n = Inr ?bs" using assms by (rule linearBuckets_Inr)
  have 2: "length ?bs = nat n" by simp
  have 3: "?bs ! 0 = start" using assms by simp
  have 4: "\<forall>k. k + 1 < nat n \<longrightarrow> ?bs ! (k + 1) = fadd (?bs ! k) width" by simp
  have 5: "\<forall>s w. start = Fin (of_int s) \<and> width = Fin (of_int w)
                     \<and> (\<forall>k<nat n. \<bar>s + int k * w\<bar> < 2 ^ 53)
                 \<longrightarrow> (\<forall>k<nat n. ?bs ! k = Fin (of_int (s + int k * w)))"
  proof (intro allI impI)
    fix s w k
    assume h: "start = Fin (of_int s) \<and> width = Fin (of_int w)
                \<and> (\<forall>k<nat n. \<bar>s + int k * w\<bar> < 2 ^ 53)" and k: "k < nat n"
    then have "\<forall>j\<le>k. \<bar>s + int j * w\<bar> < 2 ^ 53" by auto
    then show "?bs ! k = Fin (of_int (s + int k * w))"
      using h k by (simp add: linear_exact)
  qed
  from 1 2 3 4 5 show ?thesis by blast
qed

theorem linearBuckets_progression_witness:
  "(1::int) \<le> 3 \<and> linearBuckets (Fin 1) (Fin 2) 3 = Inr [Fin 1, Fin 3, Fin 5]"
proof -
  obtain bs where bs: "linearBuckets (Fin 1) (Fin 2) 3 = Inr bs" "length bs = 3"
    and ex: "\<forall>s w. Fin 1 = Fin (of_int s) \<and> Fin 2 = Fin (of_int w)
                     \<and> (\<forall>k<nat 3. \<bar>s + int k * w\<bar> < 2 ^ 53)
                 \<longrightarrow> (\<forall>k<nat 3. bs ! k = Fin (of_int (s + int k * w)))"
    using linearBuckets_progression [of 3 "Fin 1" "Fin 2"] by auto
  have "\<forall>k<nat 3. \<bar>1 + int k * 2\<bar> < (2::int) ^ 53" by auto
  then have "\<forall>k<nat 3. bs ! k = Fin (of_int (1 + int k * 2))"
    using ex [rule_format, of 1 2] by simp
  then have "bs ! 0 = Fin 1" "bs ! Suc 0 = Fin 3" "bs ! Suc (Suc 0) = Fin 5" by simp_all
  then have "bs = [Fin 1, Fin 3, Fin 5]"
    using bs(2) by (simp add: list_eq_iff_nth_eq less_Suc_eq numeral_3_eq_3)
  then show ?thesis using bs(1) by simp
qed

text \<open>
  The claim as stated fails where a sum is rounded: with start \<open>2^53 = 9007199254740992\<close>
  and width 1 every partial sum \<open>2^53 + 1\<close> is a tie and rounds back to \<open>2^53\<close>, so the
  bound of index 2 is \<open>2^53\<close>, whereas \<open>start + 2 * width\<close> is the float64 \<open>2^53 + 2\<close>.
\<close>

theorem linearBuckets_progression_counterexample:
  "is_f64 (Fin 9007199254740992) \<and> is_f64 (Fin 1) \<and> is_f64 (Fin 9007199254740994)
   \<and> linearBuckets (Fin 9007199254740992) (Fin 1) 3
       = Inr [Fin 9007199254740992, Fin 9007199254740992, Fin 9007199254740992]
   \<and> fadd (Fin 9007199254740992) (fmul (Fin 2) (Fin 1)) = Fin 9007199254740994
   \<and> [Fin 9007199254740992, Fin 9007199254740992, Fin 9007199254740992] ! 2
       \<noteq> Fin 9007199254740994"
proof -
  have a: "rnd 9007199254740992 = Fin 9007199254740992"
    using rnd_exact [of "2 ^ 52" 1] by (simp add: pw2_def)
  have b: "rnd 9007199254740994 = Fin 9007199254740994"
    using rnd_exact [of "2 ^ 52 + 1" 1] by (simp add: pw2_def)
  have c: "fadd (Fin 9007199254740992) (Fin 1) = Fin 9007199254740992"
    by (simp add: fadd_Fin rnd_tie_2p53)
  have d: "linearBuckets (Fin 9007199254740992) (Fin 1) 3
       = Inr [Fin 9007199254740992, Fin 9007199254740992, Fin 9007199254740992]"
    by (simp add: linearBuckets_def linear_loop.simps eval_nat_numeral c)
  have e: "fadd (Fin 9007199254740992) (fmul (Fin 2) (Fin 1)) = Fin 9007199254740994"
    by (simp add: fmul_def fadd_Fin isNaN_def is_inf_def is_zero_def b)
  show ?thesis using a b d e by simp
qed

text \<open>
  Claim C7, as amended.  For float64 values \<open>start > 0\<close> and \<open>factor > 1\<close> and a count of at
  least 1, \<open>exponentialBuckets\<close> succeeds and returns \<open>count\<close> bounds with
  \<open>bound[k+1] = bound[k] * factor\<close> in float64 multiplication.  The bounds never decrease,
  and \<open>bound[k] < bound[k+1]\<close> wherever \<open>bound[k]\<close> is a finite normal number (at least
  \<open>2^-1022\<close>).
\<close>

theorem exponentialBuckets_increasing:
  assumes "is_f64 start" "is_f64 factor" "flt fzero start" "flt fone factor" "1 \<le> n"
  shows "\<exists>bs. exponentialBuckets start factor n = Inr bs \<and> length bs = nat n \<and> bs ! 0 = start
     \<and> (\<forall>k. k + 1 < nat n \<longrightarrow>
            bs ! (k + 1) = fmul (bs ! k) factor
          \<and> fle (bs ! k) (bs ! (k + 1))
          \<and> (fle (Fin (pw2 (- 1022))) (bs ! k) \<and> bs ! k \<noteq> PInf \<longrightarrow> flt (bs ! k) (bs ! (k + 1))))"
proof -
  let ?it = "\<lambda>k. ((\<lambda>x. fmul x factor) ^^ k) start"
  let ?bs = "map ?it [0..<nat n]"
  have s: "\<not> fle start fzero" using assms(3) by (auto simp: flt_def fle_def)
  have f: "\<not> fle factor fone" using assms(4) by (auto simp: flt_def fle_def)
  have 1: "exponentialBuckets start factor n = Inr ?bs"
    using assms(5) s f by (rule exponentialBuckets_Inr)
  have 2: "length ?bs = nat n" by simp
  have 3: "?bs ! 0 = start" using assms(5) by simp
  have 4: "\<forall>k. k + 1 < nat n \<longrightarrow>
            ?bs ! (k + 1) = fmul (?bs ! k) factor
          \<and> fle (?bs ! k) (?bs ! (k + 1))
          \<and> (fle (Fin (pw2 (- 1022))) (?bs ! k) \<and> ?bs ! k \<noteq> PInf \<longrightarrow> flt (?bs ! k) (?bs ! (k + 1)))"
  proof (intro allI impI)
    fix k assume k: "k + 1 < nat n"
    have v: "is_f64 (?it k)" "flt fzero (?it k)"
      using fmul_iter [OF assms(1-4), of k] by simp_all
    have e: "?bs ! k = ?it k" "?bs ! (k + 1) = fmul (?it k) factor" using k by simp_all
    show "?bs ! (k + 1) = fmul (?bs ! k) factor
          \<and> fle (?bs ! k) (?bs ! (k + 1))
          \<and> (fle (Fin (pw2 (- 1022))) (?bs ! k) \<and> ?bs ! k \<noteq> PInf \<longrightarrow> flt (?bs ! k) (?bs ! (k + 1)))"
      unfolding e using fmul_step [OF v(1) assms(2) v(2) assms(4)] by simp
  qed
  from 1 2 3 4 show ?thesis by blast
qed

theorem exponentialBuckets_increasing_witness:
  "is_f64 (Fin 1) \<and> is_f64 (Fin 5) \<and> flt fzero (Fin 1) \<and> flt fone (Fin 5) \<and> (1::int) \<le> 3
   \<and> exponentialBuckets (Fin 1) (Fin 5) 3 = Inr [Fin 1, Fin 5, Fin 25]
   \<and> flt (Fin 1) (Fin 5) \<and> flt (Fin 5) (Fin 25)"
proof -
  have h: "is_f64 (Fin 1)" "is_f64 (Fin 5)" "flt fzero (Fin 1)" "flt fone (Fin 5)" "(1::int) \<le> 3"
    by (simp_all add: eval_float)
  obtain bs where bs: "exponentialBuckets (Fin 1) (Fin 5) 3 = Inr bs"
    using exponentialBuckets_increasing [OF h] by blast
  have "exponentialBuckets (Fin 1) (Fin 5) 3 = Inr [Fin 1, Fin 5, Fin 25]"
    by (simp add: exponentialBuckets_def exponential_loop.simps eval_nat_numeral eval_float)
  then show ?thesis using h by (simp add: eval_float)
qed

text \<open>
  The claim as stated fails once a product overflows: from start \<open>2^1023\<close> and factor 2
  the bounds are \<open>2^1023, +Inf, +Inf\<close>, and the last two are equal.
\<close>

theorem exponentialBuckets_increasing_counterexample:
  "is_f64 (Fin (pw2 1023)) \<and> is_f64 (Fin 2) \<and> flt fzero (Fin (pw2 1023)) \<and> flt fone (Fin 2)
   \<and> exponentialBuckets (Fin (pw2 1023)) (Fin 2) 3 = Inr [Fin (pw2 1023), PInf, PInf]
   \<and> \<not> flt ([Fin (pw2 1023), PInf, PInf] ! 1) ([Fin (pw2 1023), PInf, PInf] ! 2)"
proof -
  have a: "fmul (Fin (pw2 1023)) (Fin 2) = PInf"
    by (simp add: fmul_def isNaN_def is_inf_def is_zero_def rnd_2p1024)
  have b: "fmul PInf (Fin 2) = PInf"
    by (simp add: fmul_def isNaN_def is_inf_def is_zero_def)
  have c: "\<not> fle (Fin (pw2 1023)) fzero" "\<not> fle (Fin 2) fone" "flt fzero (Fin (pw2 1023))"
    "flt fone (Fin 2)"
    by (simp_all add: fle_def flt_def isNaN_def fzero_def fone_def not_le)
  have "exponentialBuckets (Fin (pw2 1023)) (Fin 2) 3 = Inr [Fin (pw2 1023), PInf, PInf]"
    by (simp add: exponentialBuckets_def c exponential_loop.simps eval_nat_numeral a b)
  then show ?thesis using c is_f64_2p1023 by (simp add: flt_def)
qed

text \<open>
  Claim C8, as amended.  \<open>exponentialBuckets\<close> checks the count first: with a count below 1
  the error is \<open>InvalidCountError\<close>.  For every count of at least 1 it fails with
  \<open>InvalidStartError\<close> whenever \<open>start <= 0\<close>, and with \<open>InvalidFactorError\<close> whenever
  \<open>start > 0\<close> and \<open>factor <= 1\<close>.  In particular \<open>exponentialBuckets(0, 2, 3)\<close> fails with
  \<open>InvalidStartError\<close> and \<open>exponentialBuckets(1, 1, 3)\<close> with \<open>InvalidFactorError\<close>.
\<close>

theorem exponentialBuckets_errors:
  "(n < 1 \<longrightarrow> exponentialBuckets start factor n = Inl InvalidCountError)
   \<and> (1 \<le> n \<and> fle start fzero \<longrightarrow>
        exponentialBuckets start factor n = Inl InvalidStartError)
   \<and> (1 \<le> n \<and> flt fzero start \<and> fle factor fone \<longrightarrow>
        exponentialBuckets start factor n = Inl InvalidFactorError)
   \<and> exponentialBuckets (Fin 0) (Fin 2) 3 = Inl InvalidStartError
   \<and> exponentialBuckets (Fin 1) (Fin 1) 3 = Inl InvalidFactorError"
proof -
  have "flt fzero start \<Longrightarrow> \<not> fle start fzero"
    by (auto simp: flt_def fle_def)
  then show ?thesis
    by (auto simp: exponentialBuckets_def) (simp_all add: eval_float)
qed

theorem exponentialBuckets_errors_witness:
  "(1::int) \<le> 7
   \<and> fle NZero fzero \<and> exponentialBuckets NZero (Fin 2) 7 = Inl InvalidStartError
   \<and> flt fzero (Fin 3) \<and> fle (Fin (1 / 2)) fone
   \<and> exponentialBuckets (Fin 3) (Fin (1 / 2)) 7 = Inl InvalidFactorError
   \<and> (- 2 :: int) < 1 \<and> exponentialBuckets (Fin 3) (Fin 2) (- 2) = Inl InvalidCountError"
  using exponentialBuckets_errors [of 7 NZero "Fin 2"]
    exponentialBuckets_errors [of 7 "Fin 3" "Fin (1 / 2)"]
    exponentialBuckets_errors [of "- 2" "Fin 3" "Fin 2"]
  by (simp add: eval_float)

text \<open>
  The claim as stated, for every count, fails: with a count below 1 the error is
  \<open>InvalidCountError\<close>, whatever the start value.
\<close>

theorem exponentialBuckets_errors_counterexample:
  "fle (Fin 0) fzero \<and> exponentialBuckets (Fin 0) (Fin 2) 0 = Inl InvalidCountError
   \<and> exponentialBuckets (Fin 0) (Fin 2) 0 \<noteq> Inl InvalidStartError"
  by (simp add: exponentialBuckets_def eval_float)

section \<open>The accumulator: parseValues\<close>

subsection \<open>The binary search\<close>

lemma search_loop_bounds:
  "i \<le> j \<Longrightarrow> i \<le> search_loop f i j \<and> search_loop f i j \<le> j"
proof (induction f i j rule: search_loop.induct)
  case (1 f i j)
  show ?case
  proof (cases "i < j")
    case True
    define h where "h = (i + j) div 2"
    have h: "i \<le> h" "h < j" using True by (simp_all add: h_def)
    show ?thesis
    proof (cases "f h")
      case True
      then have nn: "\<not> \<not> f h" by simp
      have e: "search_loop f i j = search_loop f i h"
        using \<open>i < j\<close> True by (subst search_loop.simps) (simp add: h_def)
      from "1.IH"(2) [OF \<open>i < j\<close> h_def nn h(1)] h(2) show ?thesis
        unfolding e by linarith
    next
      case False
      have e: "search_loop f i j = search_loop f (h + 1) j"
        using \<open>i < j\<close> False by (subst search_loop.simps) (simp add: h_def)
      have "h + 1 \<le> j" using h(2) by simp
      from "1.IH"(1) [OF \<open>i < j\<close> h_def False this] h(1) show ?thesis
        unfolding e by linarith
    qed
  next
    case False
    then have "search_loop f i j = i" by (subst search_loop.simps) simp
    then show ?thesis using "1.prems" by simp
  qed
qed

lemma search_loop_least:
  assumes "\<forall>k l. k \<le> l \<and> l < n \<and> f k \<longrightarrow> f l"
  shows "i \<le> j \<Longrightarrow> j \<le> n \<Longrightarrow> \<forall>k<i. \<not> f k \<Longrightarrow> \<forall>k. j \<le> k \<and> k < n \<longrightarrow> f k \<Longrightarrow>
         (\<forall>k<search_loop f i j. \<not> f k) \<and> (\<forall>k. search_loop f i j \<le> k \<and> k < n \<longrightarrow> f k)"
  using assms
proof (induction f i j rule: search_loop.induct)
  case (1 f i j)
  note mono = "1.prems"(5)
  show ?case
  proof (cases "i < j")
    case True
    define h where "h = (i + j) div 2"
    have h: "i \<le> h" "h < j" using True by (simp_all add: h_def)
    have hn: "h \<le> n" "h < n" using h(2) "1.prems"(2) by simp_all
    show ?thesis
    proof (cases "f h")
      case True
      then have nn: "\<not> \<not> f h" by simp
      have e: "search_loop f i j = search_loop f i h"
        using \<open>i < j\<close> True by (subst search_loop.simps) (simp add: h_def)
      have up: "\<forall>k. h \<le> k \<and> k < n \<longrightarrow> f k"
        using True mono by blast
      show ?thesis
        unfolding e by (rule "1.IH"(2) [OF \<open>i < j\<close> h_def nn h(1) hn(1) "1.prems"(3) up mono])
    next
      case False
      have e: "search_loop f i j = search_loop f (h + 1) j"
        using \<open>i < j\<close> False by (subst search_loop.simps) (simp add: h_def)
      have lo: "\<forall>k<h + 1. \<not> f k"
      proof (intro allI impI)
        fix k assume "k < h + 1"
        then have "k \<le> h" by simp
        then show "\<not> f k" using False mono hn(2) by blast
      qed
      have hj: "h + 1 \<le> j" using h(2) by simp
      show ?thesis
        unfolding e
        by (rule "1.IH"(1) [OF \<open>i < j\<close> h_def False hj "1.prems"(2) lo "1.prems"(4) mono])
    qed
  next
    case False
    then have "search_loop f i j = i" by (subst search_loop.simps) simp
    moreover have "i = j" using False "1.prems"(1) by simp
    ultimately show ?thesis using "1.prems"(3,4) by simp
  qed
qed

lemma SearchFloat64s_le: "SearchFloat64s a x \<le> length a"
  using search_loop_bounds [of 0 "length a"] by (simp add: SearchFloat64s_def Search_def)

lemma SearchFloat64s_sorted:
  assumes "sorted_wrt fle a"
  shows "(\<forall>k<SearchFloat64s a x. \<not> fge (a ! k) x)
       \<and> (\<forall>k. SearchFloat64s a x \<le> k \<and> k < length a \<longrightarrow> fge (a ! k) x)"
proof -
  have mono: "\<forall>k l. k \<le> l \<and> l < length a \<and> fge (a ! k) x \<longrightarrow> fge (a ! l) x"
  proof (intro allI impI)
    fix k l assume h: "k \<le> l \<and> l < length a \<and> fge (a ! k) x"
    show "fge (a ! l) x"
    proof (cases "k = l")
      case True
      then show ?thesis using h by simp
    next
      case False
      then have "k < l" using h by simp
      then have "fle (a ! k) (a ! l)" using assms h by (simp add: sorted_wrt_iff_nth_less)
      moreover have "fle x (a ! k)" using h by (simp add: fge_def)
      ultimately show ?thesis unfolding fge_def by (metis fle_trans)
    qed
  qed
  show ?thesis
    unfolding SearchFloat64s_def Search_def
    by (rule search_loop_least [OF mono]) auto
qed

lemma SearchFloat64s_NaN: "SearchFloat64s a NaN = length a"
proof -
  have mono: "\<forall>k l. k \<le> l \<and> l < length a \<and> fge (a ! k) NaN \<longrightarrow> fge (a ! l) NaN"
    by (simp add: fge_def fle_def isNaN_def)
  have "(\<forall>k<SearchFloat64s a NaN. \<not> fge (a ! k) NaN)
       \<and> (\<forall>k. SearchFloat64s a NaN \<le> k \<and> k < length a \<longrightarrow> fge (a ! k) NaN)"
    unfolding SearchFloat64s_def Search_def
    by (rule search_loop_least [OF mono]) auto
  then have "SearchFloat64s a NaN < length a \<longrightarrow> fge (a ! SearchFloat64s a NaN) NaN"
    by blast
  moreover have "\<not> fge (a ! SearchFloat64s a NaN) NaN"
    by (simp add: fge_def fle_def isNaN_def)
  ultimately have "\<not> SearchFloat64s a NaN < length a" by blast
  then show ?thesis using SearchFloat64s_le [of a NaN] by simp
qed

subsection \<open>The increment loop and the scanning loop\<close>

lemma incrementFrom_length [simp]: "length (incrementFrom ix rs) = length rs"
  by (induction ix rs rule: incrementFrom.induct) (subst incrementFrom.simps, simp)

lemma incrementFrom_nth:
  "j < length rs \<Longrightarrow>
   incrementFrom ix rs ! j
     = (if ix \<le> j then (rs ! j)\<lparr>count := fadd (count (rs ! j)) fone\<rparr> else rs ! j)"
proof (induction ix rs rule: incrementFrom.induct)
  case (1 ix result)
  show ?case
  proof (cases "ix < length result")
    case True
    let ?r = "result[ix := (result ! ix)\<lparr>count := fadd (count (result ! ix)) fone\<rparr>]"
    have e: "incrementFrom ix result = incrementFrom (ix + 1) ?r"
      using True by (subst incrementFrom.simps) simp
    have j: "j < length ?r" using "1.prems" by simp
    note IH = "1.IH" [OF True j]
    consider "j < ix" | "j = ix" | "ix < j" by linarith
    then show ?thesis
    proof cases
      case 1
      then show ?thesis unfolding e IH by simp
    next
      case 2
      then show ?thesis unfolding e IH using True by simp
    next
      case 3
      then show ?thesis unfolding e IH by simp
    qed
  next
    case False
    then have "incrementFrom ix result = result" by (subst incrementFrom.simps) simp
    then show ?thesis using False "1.prems" by simp
  qed
qed

lemma map_upperBound_incrementFrom [simp]:
  "map upperBound (incrementFrom ix rs) = map upperBound rs"
  by (simp add: list_eq_iff_nth_eq incrementFrom_nth)

lemma pv_result_observe:
  "pv_result (observe buckets v st) = incrementFrom (SearchFloat64s buckets v) (pv_result st)"
  by (simp add: observe_def Let_def)

lemma pv_count_observe: "pv_count (observe buckets v st) = fadd (pv_count st) fone"
  by (simp add: observe_def Let_def)

lemma scan_loop_append:
  "scan_loop trimSpace parseFloat buckets (xs @ ys) st
     = (case scan_loop trimSpace parseFloat buckets xs st of
          Inl e \<Rightarrow> Inl e
        | Inr st1 \<Rightarrow> scan_loop trimSpace parseFloat buckets ys st1)"
  by (induction xs arbitrary: st) (simp_all add: Let_def split: option.splits)

lemma scan_loop_total:
  "\<forall>l\<in>set scanner. parseFloat (trimSpace l) \<noteq> None \<Longrightarrow>
   \<exists>st'. scan_loop trimSpace parseFloat buckets scanner st = Inr st'"
  by (induction scanner arbitrary: st) (auto simp: Let_def split: option.splits)

lemma scan_loop_invariant:
  assumes "scan_loop trimSpace parseFloat buckets scanner st = Inr st'"
    and "P st" and "\<And>v s. P s \<Longrightarrow> P (observe buckets v s)"
  shows "P st'"
  using assms(1,2)
proof (induction scanner arbitrary: st)
  case Nil
  then show ?case by simp
next
  case (Cons l scanner)
  then show ?case using assms(3) by (auto simp: Let_def split: option.splits)
qed

lemma scan_loop_count:
  "scan_loop trimSpace parseFloat buckets scanner st = Inr st' \<Longrightarrow>
   pv_count st' = ((\<lambda>c. fadd c fone) ^^ length scanner) (pv_count st)"
proof (induction scanner arbitrary: st)
  case Nil
  then show ?case by simp
next
  case (Cons l scanner)
  then show ?case
    using funpow_swap1 [of "\<lambda>c. fadd c fone" "length scanner"]
    by (auto simp: Let_def pv_count_observe split: option.splits)
qed

lemma count_iter_exact:
  "n \<le> 2 ^ 53 \<Longrightarrow> ((\<lambda>c. fadd c fone) ^^ n) fzero = Fin (of_nat n)"
proof (induction n)
  case 0
  then show ?case by (simp add: fzero_def)
next
  case (Suc n)
  then have IH: "((\<lambda>c. fadd c fone) ^^ n) fzero = Fin (of_nat n)" by simp
  have "\<bar>int (Suc n)\<bar> < 2 ^ 53 \<or> Suc n = 2 ^ 53" using Suc.prems by auto
  then have "rnd (of_int (int (Suc n))) = Fin (of_int (int (Suc n)))"
  proof
    assume "\<bar>int (Suc n)\<bar> < 2 ^ 53"
    then show ?thesis by (rule rnd_int)
  next
    assume e: "Suc n = 2 ^ 53"
    have "rnd (of_int (2 ^ 52) * pw2 1) = Fin (of_int (2 ^ 52) * pw2 1)"
      by (rule rnd_exact) simp_all
    then show ?thesis by (simp add: e pw2_def)
  qed
  then have r: "rnd (of_nat n + 1) = Fin (of_nat (Suc n))" by (simp add: add.commute)
  have "((\<lambda>c. fadd c fone) ^^ Suc n) fzero = fadd (Fin (of_nat n)) fone"
    by (simp add: IH)
  also have "\<dots> = rnd (of_nat n + 1)" by (simp only: fone_def fadd_Fin)
  finally show ?case using r by simp
qed

lemma scan_loop_bad_line:
  assumes "\<forall>l\<in>set pre. parseFloat (trimSpace l) \<noteq> None"
    and "parseFloat (trimSpace bad) = None"
  shows "scan_loop trimSpace parseFloat buckets (pre @ bad # rest) st
         = Inl (MalformedSampleError (trimSpace bad))"
  using assms(1)
proof (induction pre arbitrary: st)
  case Nil
  then show ?case using assms(2) by (simp add: Let_def)
next
  case (Cons l pre)
  then show ?case by (auto simp: Let_def split: option.splits)
qed

subsection \<open>Incrementing a count\<close>

lemma fadd_one_cases:
  "fadd c fone = (if c = NaN then NaN else if c = PInf then PInf else if c = NInf then NInf
                  else rnd (val c + 1))"
  by (cases c) (simp_all add: fadd_def fone_def isNaN_def is_inf_def)

lemma fadd_one_valid:
  "\<not> isNaN c \<Longrightarrow> is_f64 (fadd c fone) \<and> \<not> isNaN (fadd c fone)"
  by (simp add: fadd_one_cases isNaN_def rnd_is_f64)

lemma fle_fadd_one:
  assumes "is_f64 c" "\<not> isNaN c"
  shows "fle c (fadd c fone)"
proof (cases c)
  case (Fin q)
  then show ?thesis using assms fle_rnd_self [of q "q + 1"] by (simp add: fadd_one_cases)
next
  case NZero
  then show ?thesis by (simp add: fadd_one_cases fle_def isNaN_def)
qed (use assms in \<open>simp_all add: fadd_one_cases fle_def isNaN_def\<close>)

lemma fle_NInf: "\<not> isNaN x \<Longrightarrow> fle NInf x"
  by (cases x) (simp_all add: fle_def isNaN_def)

lemma fle_PInf: "\<not> isNaN x \<Longrightarrow> fle x PInf"
  by (cases x) (simp_all add: fle_def isNaN_def)

lemma fadd_one_mono:
  assumes "fle a b"
  shows "fle (fadd a fone) (fadd b fone)"
proof -
  have n: "a \<noteq> NaN" "b \<noteq> NaN" using assms by (auto simp: fle_def isNaN_def)
  consider "a = NInf" | "b = PInf" | "a \<noteq> NInf" "a \<noteq> PInf" "b \<noteq> NInf" "b \<noteq> PInf"
    using assms n by (cases a; cases b) (simp_all add: fle_def isNaN_def)
  then show ?thesis
  proof cases
    case 1
    then have "fadd a fone = NInf" by (simp add: fadd_one_cases)
    then show ?thesis using fadd_one_valid [of b] n(2) by (simp add: fle_NInf isNaN_def)
  next
    case 2
    then have "fadd b fone = PInf" by (simp add: fadd_one_cases)
    then show ?thesis using fadd_one_valid [of a] n(1) by (simp add: fle_PInf isNaN_def)
  next
    case 3
    have "val a \<le> val b" using assms 3 n by (cases a; cases b) (simp_all add: fle_def isNaN_def)
    then have "fle (rnd (val a + 1)) (rnd (val b + 1))" by (intro rnd_mono) simp
    then show ?thesis using 3 n by (simp add: fadd_one_cases)
  qed
qed

lemma counts_ok_incrementFrom:
  assumes "counts_ok rs"
  shows "counts_ok (incrementFrom ix rs)"
proof -
  have v: "\<And>j. j < length rs \<Longrightarrow> is_f64 (count (rs ! j)) \<and> \<not> isNaN (count (rs ! j))"
    using assms by (simp add: counts_ok_def)
  have m: "\<And>j. j + 1 < length rs \<Longrightarrow> fle (count (rs ! j)) (count (rs ! (j + 1)))"
    using assms by (simp add: counts_ok_def)
  have 1: "\<forall>b\<in>set (incrementFrom ix rs). is_f64 (count b) \<and> \<not> isNaN (count b)"
  proof
    fix b assume "b \<in> set (incrementFrom ix rs)"
    then obtain j where j: "j < length rs" "b = incrementFrom ix rs ! j"
      by (auto simp: in_set_conv_nth)
    show "is_f64 (count b) \<and> \<not> isNaN (count b)"
      using v [OF j(1)] fadd_one_valid [of "count (rs ! j)"] j by (simp add: incrementFrom_nth)
  qed
  have 2: "\<forall>j. j + 1 < length (incrementFrom ix rs) \<longrightarrow>
             fle (count (incrementFrom ix rs ! j)) (count (incrementFrom ix rs ! (j + 1)))"
  proof (intro allI impI)
    fix j assume "j + 1 < length (incrementFrom ix rs)"
    then have j: "j + 1 < length rs" "j < length rs" by simp_all
    consider "j + 1 < ix" | "j + 1 = ix" | "ix \<le> j" by linarith
    then show "fle (count (incrementFrom ix rs ! j)) (count (incrementFrom ix rs ! (j + 1)))"
    proof cases
      case 1
      then show ?thesis using j m [OF j(1)] by (simp add: incrementFrom_nth)
    next
      case 2
      have "fle (count (rs ! (j + 1))) (fadd (count (rs ! (j + 1))) fone)"
        using v [OF j(1)] by (intro fle_fadd_one) simp_all
      then have "fle (count (rs ! j)) (fadd (count (rs ! (j + 1))) fone)"
        using m [OF j(1)] by (metis fle_trans)
      then show ?thesis using j 2 by (simp add: incrementFrom_nth)
    next
      case 3
      then show ?thesis using j fadd_one_mono [OF m [OF j(1)]] by (simp add: incrementFrom_nth)
    qed
  qed
  from 1 2 show ?thesis by (simp add: counts_ok_def)
qed

lemma counts_ok_newResult: "counts_ok (newResult buckets)"
proof -
  have "\<And>j. j < length (newResult buckets) \<Longrightarrow> count (newResult buckets ! j) = fzero"
    by (simp add: newResult_def nth_append)
  then show ?thesis
    by (auto simp: counts_ok_def in_set_conv_nth fzero_def fle_def isNaN_def)
qed

lemma upperBounds_newResult: "map upperBound (newResult buckets) = buckets @ [PInf]"
  by (simp add: newResult_def comp_def)

lemma parseValues_upperBounds:
  assumes "parseValues trimSpace parseFloat scanner buckets = Inr st"
  shows "map upperBound (pv_result st) = buckets @ [PInf]"
  using assms unfolding parseValues_def
  by (rule scan_loop_invariant) (simp_all add: upperBounds_newResult pv_result_observe)

lemma parseValues_counts_ok:
  assumes "parseValues trimSpace parseFloat scanner buckets = Inr st"
  shows "counts_ok (pv_result st)"
  using assms unfolding parseValues_def
  by (rule scan_loop_invariant)
     (simp_all add: counts_ok_newResult pv_result_observe counts_ok_incrementFrom)

lemma parseValues_total:
  "\<forall>l\<in>set scanner. parseFloat (trimSpace l) \<noteq> None \<Longrightarrow>
   \<exists>st. parseValues trimSpace parseFloat scanner buckets = Inr st"
  unfolding parseValues_def by (rule scan_loop_total)

lemma parseValues_last_count:
  assumes "parseValues trimSpace parseFloat scanner buckets = Inr st"
  shows "length (pv_result st) = length buckets + 1
       \<and> count (pv_result st ! length buckets) = pv_count st"
  using assms unfolding parseValues_def
proof (rule scan_loop_invariant)
  show "length (pv_result \<lparr>pv_result = newResult buckets, pv_sum = fzero, pv_count = fzero,
          pv_min = fzero, pv_max = fzero, pv_first = True\<rparr>) = length buckets + 1
        \<and> count (pv_result \<lparr>pv_result = newResult buckets, pv_sum = fzero, pv_count = fzero,
          pv_min = fzero, pv_max = fzero, pv_first = True\<rparr> ! length buckets)
          = pv_count \<lparr>pv_result = newResult buckets, pv_sum = fzero, pv_count = fzero,
          pv_min = fzero, pv_max = fzero, pv_first = True\<rparr>"
    by (simp add: newResult_def nth_append)
next
  fix v and s :: accum
  assume "length (pv_result s) = length buckets + 1
        \<and> count (pv_result s ! length buckets) = pv_count s"
  then show "length (pv_result (observe buckets v s)) = length buckets + 1
        \<and> count (pv_result (observe buckets v s) ! length buckets) = pv_count (observe buckets v s)"
    using SearchFloat64s_le [of buckets v]
    by (simp add: pv_result_observe pv_count_observe incrementFrom_nth)
qed

text \<open>Every count stays a finite float64 between 0 and \<open>2^53\<close>.\<close>

lemma count_step_fin:
  assumes "count b = Fin r" "0 \<le> r" "r \<le> 2 ^ 53"
  shows "\<exists>r'. fadd (count b) fone = Fin r' \<and> 0 \<le> r' \<and> r' \<le> 2 ^ 53"
proof -
  have s: "fadd (count b) fone = rnd (r + 1)" by (simp only: assms(1) fone_def fadd_Fin)
  have "fle (rnd 1) (rnd (r + 1))" using assms(2) by (intro rnd_mono) simp
  then have lo: "fle (Fin 1) (rnd (r + 1))" by simp
  have "fle (rnd (r + 1)) (rnd 9007199254740993)" using assms(3) by (intro rnd_mono) simp
  then have hi: "fle (rnd (r + 1)) (Fin 9007199254740992)" by (simp only: rnd_tie_2p53)
  from lo hi obtain r' where "rnd (r + 1) = Fin r'" "1 \<le> r'" "r' \<le> 2 ^ 53"
    by (cases "rnd (r + 1)") (simp_all add: fle_def isNaN_def)
  then show ?thesis using s by auto
qed

lemma parseValues_counts_finite:
  assumes "parseValues trimSpace parseFloat scanner buckets = Inr st"
  shows "\<forall>b\<in>set (pv_result st). \<exists>r. count b = Fin r \<and> 0 \<le> r \<and> r \<le> 2 ^ 53"
  using assms unfolding parseValues_def
proof (rule scan_loop_invariant)
  show "\<forall>b\<in>set (pv_result \<lparr>pv_result = newResult buckets, pv_sum = fzero, pv_count = fzero,
          pv_min = fzero, pv_max = fzero, pv_first = True\<rparr>).
          \<exists>r. count b = Fin r \<and> 0 \<le> r \<and> r \<le> 2 ^ 53"
    by (auto simp: newResult_def fzero_def)
next
  fix v and s :: accum
  assume h: "\<forall>b\<in>set (pv_result s). \<exists>r. count b = Fin r \<and> 0 \<le> r \<and> r \<le> 2 ^ 53"
  show "\<forall>b\<in>set (pv_result (observe buckets v s)). \<exists>r. count b = Fin r \<and> 0 \<le> r \<and> r \<le> 2 ^ 53"
  proof
    fix b assume "b \<in> set (pv_result (observe buckets v s))"
    then obtain j where j: "j < length (pv_result s)"
      "b = incrementFrom (SearchFloat64s buckets v) (pv_result s) ! j"
      by (auto simp: pv_result_observe in_set_conv_nth)
    have o: "\<exists>r. count (pv_result s ! j) = Fin r \<and> 0 \<le> r \<and> r \<le> 2 ^ 53"
      using h j(1) by simp
    then obtain r where r: "count (pv_result s ! j) = Fin r" "0 \<le> r" "r \<le> 2 ^ 53" by blast
    show "\<exists>r. count b = Fin r \<and> 0 \<le> r \<and> r \<le> 2 ^ 53"
      using o count_step_fin [OF r] j by (simp add: incrementFrom_nth)
  qed
qed

subsection \<open>One sample\<close>

text \<open>
  Claim C1, as amended.  For every sorted boundary list and every sample \<open>v\<close> that the
  accumulator processes (after any samples before it), the insertion point \<open>i\<close> of the
  binary search is the index of the first bound \<open>>= v\<close> (the number of bounds when there is
  none), and exactly the buckets at index \<open>>= i\<close>, the trailing \<open>+Inf\<close> bucket among them,
  have their count replaced by \<open>count + 1\<close> in float64, which is one more wherever the
  count is an integer below \<open>2^53\<close>.  For a sample that is not NaN a bucket is incremented
  if and only if \<open>v <= upperBound\<close>.
\<close>

theorem sample_increments_suffix:
  assumes "sorted_wrt fle buckets"
    and "parseValues trimSpace parseFloat pre buckets = Inr st"
    and "parseFloat (trimSpace line) = Some v"
  shows "\<exists>st'. parseValues trimSpace parseFloat (pre @ [line]) buckets = Inr st'
     \<and> map upperBound (pv_result st) = buckets @ [PInf]
     \<and> map upperBound (pv_result st') = buckets @ [PInf]
     \<and> (let i = SearchFloat64s buckets v in
          i \<le> length buckets
        \<and> (\<forall>k<i. \<not> fge (buckets ! k) v)
        \<and> (\<forall>k. i \<le> k \<and> k < length buckets \<longrightarrow> fge (buckets ! k) v)
        \<and> (\<forall>j\<le>length buckets.
             count (pv_result st' ! j)
               = (if i \<le> j then fadd (count (pv_result st ! j)) fone
                  else count (pv_result st ! j))
           \<and> (\<not> isNaN v \<longrightarrow> (i \<le> j) = fle v (upperBound (pv_result st ! j)))
           \<and> (\<forall>m<2 ^ 53. i \<le> j \<and> count (pv_result st ! j) = Fin (of_nat m)
                 \<longrightarrow> count (pv_result st' ! j) = Fin (of_nat (m + 1)))))"
proof -
  define i where "i = SearchFloat64s buckets v"
  define st' where "st' = observe buckets v st"
  have run: "parseValues trimSpace parseFloat (pre @ [line]) buckets = Inr st'"
    using assms(2,3) by (simp add: parseValues_def scan_loop_append Let_def st'_def)
  have ub: "map upperBound (pv_result st) = buckets @ [PInf]"
    using assms(2) by (rule parseValues_upperBounds)
  have ub': "map upperBound (pv_result st') = buckets @ [PInf]"
    using run by (rule parseValues_upperBounds)
  have len: "length (pv_result st) = length buckets + 1"
    using arg_cong [OF ub, of length] by simp
  have ile: "i \<le> length buckets" unfolding i_def by (rule SearchFloat64s_le)
  have lo: "\<forall>k<i. \<not> fge (buckets ! k) v"
    and hi: "\<forall>k. i \<le> k \<and> k < length buckets \<longrightarrow> fge (buckets ! k) v"
    using SearchFloat64s_sorted [OF assms(1), of v] by (simp_all add: i_def)
  have main: "count (pv_result st' ! j)
               = (if i \<le> j then fadd (count (pv_result st ! j)) fone
                  else count (pv_result st ! j))
           \<and> (\<not> isNaN v \<longrightarrow> (i \<le> j) = fle v (upperBound (pv_result st ! j)))
           \<and> (\<forall>m<2 ^ 53. i \<le> j \<and> count (pv_result st ! j) = Fin (of_nat m)
                 \<longrightarrow> count (pv_result st' ! j) = Fin (of_nat (m + 1)))"
    if j: "j \<le> length buckets" for j
  proof -
    have jl: "j < length (pv_result st)" using j len by simp
    have c: "count (pv_result st' ! j)
               = (if i \<le> j then fadd (count (pv_result st ! j)) fone
                  else count (pv_result st ! j))"
      using jl by (simp add: st'_def pv_result_observe incrementFrom_nth i_def)
    have u: "upperBound (pv_result st ! j) = (buckets @ [PInf]) ! j"
      using arg_cong [OF ub, of "\<lambda>xs. xs ! j"] jl by simp
    have iff: "(i \<le> j) = fle v (upperBound (pv_result st ! j))" if nn: "\<not> isNaN v"
    proof (cases "j < length buckets")
      case True
      then have "upperBound (pv_result st ! j) = buckets ! j" using u by (simp add: nth_append)
      moreover have "(i \<le> j) = fge (buckets ! j) v"
        using lo hi True by (metis not_less)
      ultimately show ?thesis by (simp add: fge_def)
    next
      case False
      then have "j = length buckets" using j by simp
      then show ?thesis using u ile nn by (simp add: fle_PInf)
    qed
    have ex: "count (pv_result st' ! j) = Fin (of_nat (m + 1))"
      if "m < 2 ^ 53" "i \<le> j" "count (pv_result st ! j) = Fin (of_nat m)" for m :: nat
    proof -
      have "((\<lambda>c. fadd c fone) ^^ Suc m) fzero = Fin (of_nat (Suc m))"
        using that(1) by (intro count_iter_exact) simp
      moreover have "((\<lambda>c. fadd c fone) ^^ m) fzero = Fin (of_nat m)"
        using that(1) by (intro count_iter_exact) simp
      ultimately have "fadd (Fin (of_nat m)) fone = Fin (of_nat (Suc m))" by simp
      then show ?thesis using c that(2,3) by simp
    qed
    show ?thesis using c iff ex by auto
  qed
  show ?thesis
    using run ub ub' ile lo hi main unfolding Let_def i_def [symmetric] by blast
qed

theorem sample_increments_suffix_witness:
  "sorted_wrt fle [Fin 1, Fin 5]
   \<and> parseValues exampleTrimSpace exampleParseFloat [''3''] [Fin 1, Fin 5]
       = Inr \<lparr>pv_result = [\<lparr>upperBound = Fin 1, count = Fin 0\<rparr>,
                            \<lparr>upperBound = Fin 5, count = Fin 1\<rparr>,
                            \<lparr>upperBound = PInf, count = Fin 1\<rparr>],
               pv_sum = Fin 3, pv_count = Fin 1, pv_min = Fin 3, pv_max = Fin 3,
               pv_first = False\<rparr>
   \<and> exampleParseFloat (exampleTrimSpace '' 1'') = Some (Fin 1)
   \<and> (\<exists>st'. parseValues exampleTrimSpace exampleParseFloat ([''3''] @ ['' 1'']) [Fin 1, Fin 5]
               = Inr st'
           \<and> map upperBound (pv_result st') = [Fin 1, Fin 5] @ [PInf])"
proof -
  have h1: "sorted_wrt fle [Fin 1, Fin 5]" by (simp add: eval_float)
  have h2: "parseValues exampleTrimSpace exampleParseFloat [''3''] [Fin 1, Fin 5]
       = Inr \<lparr>pv_result = [\<lparr>upperBound = Fin 1, count = Fin 0\<rparr>,
                            \<lparr>upperBound = Fin 5, count = Fin 1\<rparr>,
                            \<lparr>upperBound = PInf, count = Fin 1\<rparr>],
               pv_sum = Fin 3, pv_count = Fin 1, pv_min = Fin 3, pv_max = Fin 3,
               pv_first = False\<rparr>"
    by (simp add: eval_prog eval_loops eval_float eval_example)
  have h3: "exampleParseFloat (exampleTrimSpace '' 1'') = Some (Fin 1)"
    by (simp add: eval_example)
  from sample_increments_suffix [OF h1 h2 h3] show ?thesis
    using h1 h2 h3 by blast
qed

text \<open>
  The claim as stated, for every sample, fails for the sample NaN (the text \<open>NaN\<close> is a
  number for \<open>strconv.ParseFloat\<close>): no bound is \<open>>= NaN\<close>, the insertion point is the
  number of bounds, and the count of the \<open>+Inf\<close> bucket goes from 0 to 1 although
  \<open>NaN <= +Inf\<close> is false.
\<close>

theorem sample_increments_suffix_counterexample:
  "sorted_wrt fle [Fin 1]
   \<and> exampleParseFloat (exampleTrimSpace ''NaN'') = Some NaN
   \<and> parseValues exampleTrimSpace exampleParseFloat [] [Fin 1]
       = Inr \<lparr>pv_result = [\<lparr>upperBound = Fin 1, count = Fin 0\<rparr>,
                            \<lparr>upperBound = PInf, count = Fin 0\<rparr>],
               pv_sum = Fin 0, pv_count = Fin 0, pv_min = Fin 0, pv_max = Fin 0,
               pv_first = True\<rparr>
   \<and> parseValues exampleTrimSpace exampleParseFloat [''NaN''] [Fin 1]
       = Inr \<lparr>pv_result = [\<lparr>upperBound = Fin 1, count = Fin 0\<rparr>,
                            \<lparr>upperBound = PInf, count = Fin 1\<rparr>],
               pv_sum = NaN, pv_count = Fin 1, pv_min = NaN, pv_max = NaN,
               pv_first = False\<rparr>
   \<and> \<not> fle NaN PInf"
  by (simp add: eval_prog eval_loops eval_float eval_example)

subsection \<open>The whole stream\<close>

text \<open>
  Claim C2.  For every boundary list and every stream of samples (texts that all parse),
  \<open>parseValues\<close> returns, the last bucket of its result is the \<open>+Inf\<close> bucket, and the count
  of that bucket equals the sample count: both are the float64 that \<open>count++\<close> reaches from
  0 once for each sample, which is the number of samples for up to \<open>2^53\<close> samples.
\<close>

theorem inf_bucket_counts_every_sample:
  assumes "\<forall>l\<in>set scanner. parseFloat (trimSpace l) \<noteq> None"
  shows "\<exists>st. parseValues trimSpace parseFloat scanner buckets = Inr st
        \<and> upperBound (last (pv_result st)) = PInf
        \<and> count (last (pv_result st)) = pv_count st
        \<and> pv_count st = ((\<lambda>c. fadd c fone) ^^ length scanner) fzero
        \<and> (length scanner \<le> 2 ^ 53 \<longrightarrow> pv_count st = Fin (of_nat (length scanner)))"
proof -
  obtain st where st: "parseValues trimSpace parseFloat scanner buckets = Inr st"
    using parseValues_total [where parseFloat = parseFloat and trimSpace = trimSpace, OF assms]
    by blast
  have len: "length (pv_result st) = length buckets + 1"
    and cnt: "count (pv_result st ! length buckets) = pv_count st"
    using parseValues_last_count [OF st] by simp_all
  have ne: "pv_result st \<noteq> []" using len by auto
  have l: "last (pv_result st) = pv_result st ! length buckets"
    using len by (simp add: last_conv_nth [OF ne])
  have "map upperBound (pv_result st) ! length buckets = (buckets @ [PInf]) ! length buckets"
    using parseValues_upperBounds [OF st] by simp
  then have ub: "upperBound (pv_result st ! length buckets) = PInf"
    using len by simp
  have it: "pv_count st = ((\<lambda>c. fadd c fone) ^^ length scanner) fzero"
    using scan_loop_count [OF st [unfolded parseValues_def]] by simp
  have "length scanner \<le> 2 ^ 53 \<longrightarrow> pv_count st = Fin (of_nat (length scanner))"
    using it count_iter_exact by simp
  then show ?thesis using st l ub cnt it by simp
qed

theorem inf_bucket_counts_every_sample_witness:
  "exampleParseFloat (exampleTrimSpace ''3'') = Some (Fin 3)
   \<and> exampleParseFloat (exampleTrimSpace '' 1 '') = Some (Fin 1)
   \<and> exampleParseFloat (exampleTrimSpace ''NaN'') = Some NaN
   \<and> (\<exists>st. parseValues exampleTrimSpace exampleParseFloat [''3'', '' 1 '', ''NaN''] [Fin 1, Fin 2]
              = Inr st
          \<and> upperBound (last (pv_result st)) = PInf
          \<and> count (last (pv_result st)) = pv_count st
          \<and> pv_count st = Fin 3)"
proof -
  have h: "\<forall>l\<in>set [''3'', '' 1 '', ''NaN'']. exampleParseFloat (exampleTrimSpace l) \<noteq> None"
    by (simp add: eval_example)
  have p: "exampleParseFloat (exampleTrimSpace ''3'') = Some (Fin 3)"
    "exampleParseFloat (exampleTrimSpace '' 1 '') = Some (Fin 1)"
    "exampleParseFloat (exampleTrimSpace ''NaN'') = Some NaN"
    by (simp_all add: eval_example)
  from inf_bucket_counts_every_sample [where parseFloat = exampleParseFloat
      and trimSpace = exampleTrimSpace and buckets = "[Fin 1, Fin 2]", OF h] p
  show ?thesis
    by auto
qed

text \<open>
  Claim C3.  For every boundary list, sorted or not, and every stream of samples, the
  counts that \<open>parseValues\<close> returns do not decrease along the buckets: the count of
  bucket \<open>j\<close> is \<open><=\<close> the count of bucket \<open>j + 1\<close>.
\<close>

theorem cumulative_counts_nondecreasing:
  assumes "\<forall>l\<in>set scanner. parseFloat (trimSpace l) \<noteq> None"
  shows "\<exists>st. parseValues trimSpace parseFloat scanner buckets = Inr st
        \<and> (\<forall>j. j + 1 < length (pv_result st) \<longrightarrow>
               fle (count (pv_result st ! j)) (count (pv_result st ! (j + 1))))"
proof -
  obtain st where st: "parseValues trimSpace parseFloat scanner buckets = Inr st"
    using parseValues_total [where parseFloat = parseFloat and trimSpace = trimSpace, OF assms]
    by blast
  from parseValues_counts_ok [OF st] show ?thesis
    using st by (simp add: counts_ok_def)
qed

theorem cumulative_counts_nondecreasing_witness:
  "exampleParseFloat (exampleTrimSpace ''3'') = Some (Fin 3)
   \<and> exampleParseFloat (exampleTrimSpace '' 1 '') = Some (Fin 1)
   \<and> exampleParseFloat (exampleTrimSpace ''NaN'') = Some NaN
   \<and> (\<exists>st. parseValues exampleTrimSpace exampleParseFloat [''3'', '' 1 '', ''NaN''] [Fin 2, Fin 1]
              = Inr st
          \<and> length (pv_result st) = 3
          \<and> fle (count (pv_result st ! 0)) (count (pv_result st ! 1))
          \<and> fle (count (pv_result st ! 1)) (count (pv_result st ! 2)))"
proof -
  have h: "\<forall>l\<in>set [''3'', '' 1 '', ''NaN'']. exampleParseFloat (exampleTrimSpace l) \<noteq> None"
    by (simp add: eval_example)
  obtain st where st: "parseValues exampleTrimSpace exampleParseFloat [''3'', '' 1 '', ''NaN'']
        [Fin 2, Fin 1] = Inr st"
    and m: "\<forall>j. j + 1 < length (pv_result st) \<longrightarrow>
               fle (count (pv_result st ! j)) (count (pv_result st ! (j + 1)))"
    using cumulative_counts_nondecreasing [where parseFloat = exampleParseFloat
      and trimSpace = exampleTrimSpace and buckets = "[Fin 2, Fin 1]", OF h] by blast
  have len: "length (pv_result st) = 3"
    using arg_cong [OF parseValues_upperBounds [OF st], of length] by simp
  have p: "exampleParseFloat (exampleTrimSpace ''3'') = Some (Fin 3)"
    "exampleParseFloat (exampleTrimSpace '' 1 '') = Some (Fin 1)"
    "exampleParseFloat (exampleTrimSpace ''NaN'') = Some NaN"
    by (simp_all add: eval_example)
  from m [rule_format, of 0] m [rule_format, of 1] show ?thesis
    using p st len by (simp add: numeral_2_eq_2)
qed

text \<open>
  Claim C4.  The samples 1, 2, 3, 4, 5 and the linear buckets of start 1, width 1 and
  count 5: the bounds are 1, 2, 3, 4, 5, and \<open>parseValues\<close> returns the six buckets with
  upper bounds 1, 2, 3, 4, 5, \<open>+Inf\<close> and counts 1, 2, 3, 4, 5, 5, with min 1, max 5, sample
  count 5 and sum 15; the average that the summary prints is 3.
\<close>

theorem round_trip_one_to_five:
  assumes "map (\<lambda>l. parseFloat (trimSpace l)) scanner
             = [Some (Fin 1), Some (Fin 2), Some (Fin 3), Some (Fin 4), Some (Fin 5)]"
  shows "linearBuckets (Fin 1) (Fin 1) 5 = Inr [Fin 1, Fin 2, Fin 3, Fin 4, Fin 5]
       \<and> (\<exists>st. parseValues trimSpace parseFloat scanner [Fin 1, Fin 2, Fin 3, Fin 4, Fin 5] = Inr st
            \<and> pv_result st = [\<lparr>upperBound = Fin 1, count = Fin 1\<rparr>,
                              \<lparr>upperBound = Fin 2, count = Fin 2\<rparr>,
                              \<lparr>upperBound = Fin 3, count = Fin 3\<rparr>,
                              \<lparr>upperBound = Fin 4, count = Fin 4\<rparr>,
                              \<lparr>upperBound = Fin 5, count = Fin 5\<rparr>,
                              \<lparr>upperBound = PInf, count = Fin 5\<rparr>]
            \<and> pv_min st = Fin 1 \<and> pv_max st = Fin 5 \<and> pv_count st = Fin 5
            \<and> pv_sum st = Fin 15 \<and> summary_avg st = Fin 3)"
proof -
  obtain l1 l2 l3 l4 l5 where s: "scanner = [l1, l2, l3, l4, l5]"
    and p: "parseFloat (trimSpace l1) = Some (Fin 1)" "parseFloat (trimSpace l2) = Some (Fin 2)"
      "parseFloat (trimSpace l3) = Some (Fin 3)" "parseFloat (trimSpace l4) = Some (Fin 4)"
      "parseFloat (trimSpace l5) = Some (Fin 5)"
    using assms by (auto simp: map_eq_Cons_conv)
  have 1: "linearBuckets (Fin 1) (Fin 1) 5 = Inr [Fin 1, Fin 2, Fin 3, Fin 4, Fin 5]"
    by (simp add: eval_prog eval_loops eval_float eval_nat_numeral)
  have 2: "parseValues trimSpace parseFloat scanner [Fin 1, Fin 2, Fin 3, Fin 4, Fin 5]
     = Inr \<lparr>pv_result = [\<lparr>upperBound = Fin 1, count = Fin 1\<rparr>,
                              \<lparr>upperBound = Fin 2, count = Fin 2\<rparr>,
                              \<lparr>upperBound = Fin 3, count = Fin 3\<rparr>,
                              \<lparr>upperBound = Fin 4, count = Fin 4\<rparr>,
                              \<lparr>upperBound = Fin 5, count = Fin 5\<rparr>,
                              \<lparr>upperBound = PInf, count = Fin 5\<rparr>],
             pv_sum = Fin 15, pv_count = Fin 5, pv_min = Fin 1, pv_max = Fin 5,
             pv_first = False\<rparr>"
    unfolding s by (simp add: eval_prog eval_loops eval_float p)
  have 3: "fdiv (Fin 15) (Fin 5) = Fin 3" by (simp add: eval_float)
  show ?thesis using 1 2 3 by (simp add: summary_avg_def)
qed

theorem round_trip_one_to_five_witness:
  "map (\<lambda>l. exampleParseFloat (exampleTrimSpace l)) [''1'', '' 2'', ''3 '', '' 4 '', ''5'']
     = [Some (Fin 1), Some (Fin 2), Some (Fin 3), Some (Fin 4), Some (Fin 5)]
   \<and> (\<exists>st. parseValues exampleTrimSpace exampleParseFloat [''1'', '' 2'', ''3 '', '' 4 '', ''5'']
               [Fin 1, Fin 2, Fin 3, Fin 4, Fin 5] = Inr st
          \<and> map count (pv_result st) = [Fin 1, Fin 2, Fin 3, Fin 4, Fin 5, Fin 5]
          \<and> pv_sum st = Fin 15 \<and> summary_avg st = Fin 3)"
proof -
  have h: "map (\<lambda>l. exampleParseFloat (exampleTrimSpace l)) [''1'', '' 2'', ''3 '', '' 4 '', ''5'']
     = [Some (Fin 1), Some (Fin 2), Some (Fin 3), Some (Fin 4), Some (Fin 5)]"
    by (simp add: eval_example)
  from round_trip_one_to_five [where parseFloat = exampleParseFloat
      and trimSpace = exampleTrimSpace, OF h] h
  show ?thesis by auto
qed

text \<open>
  Claim C9.  If some line of the stream does not parse after trimming, \<open>parseValues\<close>
  ends the run with \<open>MalformedSampleError\<close> carrying the trimmed text of the first such
  line, whatever the bounds and whatever follows that line; \<open>main\<close> then never reaches
  the output (it never returns \<open>Inr\<close>), and its error is that \<open>MalformedSampleError\<close>
  whenever the bounds were accepted.
\<close>

theorem malformed_sample_aborts:
  assumes "\<exists>l\<in>set scanner. parseFloat (trimSpace l) = None"
  shows "\<exists>pre bad rest. scanner = pre @ bad # rest
      \<and> (\<forall>l\<in>set pre. parseFloat (trimSpace l) \<noteq> None)
      \<and> parseFloat (trimSpace bad) = None
      \<and> (\<forall>buckets. parseValues trimSpace parseFloat scanner buckets
             = Inl (MalformedSampleError (trimSpace bad)))
      \<and> (\<forall>buckets rest'. parseValues trimSpace parseFloat (pre @ bad # rest') buckets
             = Inl (MalformedSampleError (trimSpace bad)))
      \<and> (\<forall>sortFloat64s fl. (\<exists>err. main trimSpace parseFloat sortFloat64s fl scanner = Inl err)
              \<and> (\<forall>bounds. chooseBounds parseFloat sortFloat64s fl = Inr bounds \<longrightarrow>
                    main trimSpace parseFloat sortFloat64s fl scanner
                      = Inl (MalformedSampleError (trimSpace bad))))"
proof -
  from assms obtain pre bad rest where d: "scanner = pre @ bad # rest"
    and bad: "parseFloat (trimSpace bad) = None"
    and pre: "\<forall>l\<in>set pre. \<not> parseFloat (trimSpace l) = None"
    using split_list_first_prop [of scanner "\<lambda>l. parseFloat (trimSpace l) = None"] by blast
  have pv: "parseValues trimSpace parseFloat (pre @ bad # rest') buckets
             = Inl (MalformedSampleError (trimSpace bad))" for buckets rest'
    unfolding parseValues_def using pre bad by (rule scan_loop_bad_line)
  have m: "(\<exists>err. main trimSpace parseFloat sortFloat64s fl scanner = Inl err)
         \<and> (\<forall>bounds. chooseBounds parseFloat sortFloat64s fl = Inr bounds \<longrightarrow>
               main trimSpace parseFloat sortFloat64s fl scanner
                 = Inl (MalformedSampleError (trimSpace bad)))" for sortFloat64s fl
    by (cases "chooseBounds parseFloat sortFloat64s fl") (simp_all add: main_def d pv)
  show ?thesis using d bad pre pv m by blast
qed

theorem malformed_sample_aborts_witness:
  "(\<exists>l\<in>set [''1'', '' x '', ''2'', ''y'']. exampleParseFloat (exampleTrimSpace l) = None)
   \<and> parseValues exampleTrimSpace exampleParseFloat [''1'', '' x '', ''2'', ''y''] [Fin 1]
       = Inl (MalformedSampleError ''x'')"
proof -
  have h: "\<exists>l\<in>set [''1'', '' x '', ''2'', ''y'']. exampleParseFloat (exampleTrimSpace l) = None"
    by (simp add: eval_example)
  obtain pre bad rest where d: "[''1'', '' x '', ''2'', ''y''] = pre @ bad # rest"
    and pre: "\<forall>l\<in>set pre. exampleParseFloat (exampleTrimSpace l) \<noteq> None"
    and bad: "exampleParseFloat (exampleTrimSpace bad) = None"
    and pv: "\<forall>buckets. parseValues exampleTrimSpace exampleParseFloat
               [''1'', '' x '', ''2'', ''y''] buckets
             = Inl (MalformedSampleError (exampleTrimSpace bad))"
    using malformed_sample_aborts [where parseFloat = exampleParseFloat
      and trimSpace = exampleTrimSpace, OF h] by blast
  have "parseValues exampleTrimSpace exampleParseFloat [''1'', '' x '', ''2'', ''y''] [Fin 1]
       = Inl (MalformedSampleError ''x'')"
    by (simp add: eval_prog eval_loops eval_float eval_example)
  then show ?thesis using h pv by simp
qed

text \<open>
  Claim C10.  With no explicit bucket list and a mode that is none of \<open>linear\<close>, \<open>lin\<close>,
  \<open>exponential\<close>, \<open>exp\<close>, no error is raised for the mode: the boundary list is empty,
  \<open>main\<close> is \<open>parseValues\<close> on the empty list, the result has the \<open>+Inf\<close> bucket alone, and
  the count of that bucket is the sample count, so every sample is counted there.
\<close>

theorem unknown_mode_single_bucket:
  assumes "flag_buckets fl = []"
    and "flag_mode fl \<notin> {''linear'', ''lin'', ''exponential'', ''exp''}"
  shows "chooseBounds parseFloat sortFloat64s fl = Inr []
       \<and> main trimSpace parseFloat sortFloat64s fl stdin = parseValues trimSpace parseFloat stdin []
       \<and> (\<forall>st. main trimSpace parseFloat sortFloat64s fl stdin = Inr st \<longrightarrow>
              pv_result st = [\<lparr>upperBound = PInf, count = pv_count st\<rparr>]
            \<and> pv_count st = ((\<lambda>c. fadd c fone) ^^ length stdin) fzero)
       \<and> ((\<forall>l\<in>set stdin. parseFloat (trimSpace l) \<noteq> None) \<longrightarrow>
              (\<exists>st. main trimSpace parseFloat sortFloat64s fl stdin = Inr st))"
proof -
  have c: "chooseBounds parseFloat sortFloat64s fl = Inr []"
    using assms by (simp add: chooseBounds_def)
  then have m: "main trimSpace parseFloat sortFloat64s fl stdin = parseValues trimSpace parseFloat stdin []"
    by (simp add: main_def)
  have r: "pv_result st = [\<lparr>upperBound = PInf, count = pv_count st\<rparr>]
         \<and> pv_count st = ((\<lambda>c. fadd c fone) ^^ length stdin) fzero"
    if st: "parseValues trimSpace parseFloat stdin [] = Inr st" for st
  proof -
    have len: "length (pv_result st) = 1" and cnt: "count (pv_result st ! 0) = pv_count st"
      using parseValues_last_count [OF st] by simp_all
    have ub: "map upperBound (pv_result st) = [PInf]"
      using parseValues_upperBounds [OF st] by simp
    obtain b where b: "pv_result st = [b]" using len by (cases "pv_result st") simp_all
    have "b = \<lparr>upperBound = PInf, count = pv_count st\<rparr>"
      using ub cnt b by simp
    moreover have "pv_count st = ((\<lambda>c. fadd c fone) ^^ length stdin) fzero"
      using scan_loop_count [OF st [unfolded parseValues_def]] by simp
    ultimately show ?thesis using b by simp
  qed
  have t: "(\<forall>l\<in>set stdin. parseFloat (trimSpace l) \<noteq> None) \<longrightarrow>
              (\<exists>st. main trimSpace parseFloat sortFloat64s fl stdin = Inr st)"
    unfolding m
    using parseValues_total [where parseFloat = parseFloat and trimSpace = trimSpace] by blast
  show ?thesis using c m r t by simp
qed

theorem unknown_mode_single_bucket_witness:
  "flag_buckets \<lparr>flag_start = Fin 1, flag_factor = Fin 5, flag_width = Fin 1, flag_count = 10,
      flag_mode = ''log'', flag_column_width = 30, flag_buckets = []\<rparr> = []
   \<and> ''log'' \<notin> {''linear'', ''lin'', ''exponential'', ''exp''}
   \<and> main exampleTrimSpace exampleParseFloat (\<lambda>xs. xs)
       \<lparr>flag_start = Fin 1, flag_factor = Fin 5, flag_width = Fin 1, flag_count = 10,
        flag_mode = ''log'', flag_column_width = 30, flag_buckets = []\<rparr> [''3'', ''5'']
     = Inr \<lparr>pv_result = [\<lparr>upperBound = PInf, count = Fin 2\<rparr>],
            pv_sum = Fin 8, pv_count = Fin 2, pv_min = Fin 3, pv_max = Fin 5, pv_first = False\<rparr>"
proof -
  let ?fl = "\<lparr>flag_start = Fin 1, flag_factor = Fin 5, flag_width = Fin 1, flag_count = 10,
      flag_mode = ''log'', flag_column_width = 30, flag_buckets = []\<rparr>"
  have h1: "flag_buckets ?fl = []" by simp
  have h2: "flag_mode ?fl \<notin> {''linear'', ''lin'', ''exponential'', ''exp''}" by simp
  have "main exampleTrimSpace exampleParseFloat (\<lambda>xs. xs) ?fl [''3'', ''5'']
        = parseValues exampleTrimSpace exampleParseFloat [''3'', ''5''] []"
    using unknown_mode_single_bucket [OF h1 h2] by blast
  also have "\<dots> = Inr \<lparr>pv_result = [\<lparr>upperBound = PInf, count = Fin 2\<rparr>],
            pv_sum = Fin 8, pv_count = Fin 2, pv_min = Fin 3, pv_max = Fin 5, pv_first = False\<rparr>"
    by (simp add: eval_prog eval_loops eval_float eval_example)
  finally show ?thesis by simp
qed

section \<open>The quantile estimator\<close>

subsection \<open>More facts of float64\<close>

lemma fin64_cases: "fin64 x \<longleftrightarrow> x = NZero \<or> (\<exists>r. x = Fin r)"
  by (cases x) (simp_all add: fin64_def isNaN_def)

lemma feq_fle: "feq x x' \<Longrightarrow> feq y y' \<Longrightarrow> fle x' y' \<Longrightarrow> fle x y"
  by (simp add: feq_def fle_def)

lemma feq_fin64: "feq x y \<Longrightarrow> fin64 y \<Longrightarrow> fin64 x"
  by (simp add: feq_def fin64_def)

lemma fin64_fle: "fin64 x \<Longrightarrow> fin64 y \<Longrightarrow> fle x y = (val x \<le> val y)"
  by (simp add: fin64_def fle_def)

lemma is_f64_feq_rnd: "fin64 x \<Longrightarrow> is_f64 x \<Longrightarrow> feq x (rnd (val x))"
  by (cases x) (simp_all add: fin64_def feq_def isNaN_def)

lemma rnd_of_nat:
  assumes "n \<le> 2 ^ 53"
  shows "rnd (of_nat n) = Fin (of_nat n)"
proof (cases "n = 2 ^ 53")
  case True
  have "rnd (of_int (2 ^ 52) * pw2 1) = Fin (of_int (2 ^ 52) * pw2 1)"
    by (rule rnd_exact) simp_all
  then show ?thesis by (simp add: True pw2_def)
next
  case False
  then have "\<bar>int n\<bar> < 2 ^ 53" using assms by simp
  then have "rnd (of_int (int n)) = Fin (of_int (int n))" by (rule rnd_int)
  then show ?thesis by simp
qed

lemma rnd_between:
  assumes "0 \<le> x" "x \<le> h" "rnd h = Fin h"
  shows "fin64 (rnd x) \<and> 0 \<le> val (rnd x) \<and> val (rnd x) \<le> h \<and> fle fzero (rnd x)"
proof -
  have "fle (rnd 0) (rnd x)" using assms(1) by (rule rnd_mono)
  then have lo: "fle (Fin 0) (rnd x)" by simp
  have "fle (rnd x) (rnd h)" using assms(2) by (rule rnd_mono)
  then have hi: "fle (rnd x) (Fin h)" by (simp only: assms(3))
  from lo hi show ?thesis
    by (cases "rnd x") (simp_all add: fle_def isNaN_def fin64_def fzero_def)
qed

lemma rnd_nonneg: "0 \<le> x \<Longrightarrow> fle fzero (rnd x)"
  using rnd_mono [of 0 x] by (simp add: fzero_def)

lemma fsub_Fin: "fsub (Fin a) (Fin b) = (if b = 0 then Fin a else rnd (a - b))"
  by (simp add: fsub_def fadd_def isNaN_def is_inf_def)

lemma fsub_width:
  assumes "fin64 hi" "is_f64 hi" "fin64 lo" "0 \<le> val lo" "val lo \<le> val hi"
  shows "fin64 (fsub hi lo) \<and> 0 \<le> val (fsub hi lo)"
proof -
  consider "lo = NZero" | "lo = Fin 0" | l where "lo = Fin l" "0 < l"
    using assms(3,4) by (auto simp: fin64_cases less_eq_real_def)
  then show ?thesis
  proof cases
    case 1
    then show ?thesis using assms(1,2,5)
      by (auto simp: fin64_cases fsub_def fadd_def isNaN_def is_inf_def)
  next
    case 2
    then show ?thesis using assms(1,2,5)
      by (auto simp: fin64_cases fsub_def fadd_def isNaN_def is_inf_def)
  next
    case 3
    then obtain h where h: "hi = Fin h" "l \<le> h" using assms(1,5) by (auto simp: fin64_cases)
    have "rnd h = Fin h" using assms(2) h by simp
    then have "fin64 (rnd (h - l)) \<and> 0 \<le> val (rnd (h - l))"
      using rnd_between [of "h - l" h] h(2) 3(2) by simp
    then show ?thesis using 3 h by (simp add: fsub_Fin)
  qed
qed

lemma fdiv_feq:
  assumes "fin64 a" "d \<noteq> 0"
  shows "feq (fdiv a (Fin d)) (rnd (val a / d))"
  using assms
  by (auto simp: fin64_cases fdiv_def isNaN_def is_inf_def is_zero_def feq_def)

lemma fmul_feq:
  assumes "fin64 w" "fin64 f"
  shows "feq (fmul w f) (rnd (val w * val f))"
  using assms
  by (auto simp: fin64_cases fmul_def isNaN_def is_inf_def is_zero_def feq_def)

lemma fmul_is_f64: "is_f64 (fmul x y)"
  by (simp add: fmul_def rnd_is_f64)

lemma fadd_feq:
  assumes "fin64 x" "fin64 y" "is_f64 x" "is_f64 y"
  shows "feq (fadd x y) (rnd (val x + val y))"
  using assms
  by (auto simp: fin64_cases fadd_def isNaN_def is_inf_def feq_def)

lemma fle_fzero_cases:
  "fle fzero p \<Longrightarrow> p = PInf \<or> (fin64 p \<and> 0 \<le> val p)"
  by (cases p) (simp_all add: fle_def fzero_def isNaN_def fin64_def)

lemma fadd_PInf: "fin64 x \<Longrightarrow> fadd x PInf = PInf"
  by (auto simp: fin64_cases fadd_def isNaN_def is_inf_def)

lemma fadd_mono_right:
  assumes "fin64 lo" "is_f64 lo" "is_f64 p1" "is_f64 p2" "fle fzero p1" "fle p1 p2"
  shows "fle (fadd lo p1) (fadd lo p2)"
proof -
  have p2: "fle fzero p2" using assms(5,6) by (rule fle_trans)
  from fle_fzero_cases [OF p2] show ?thesis
  proof
    assume i: "p2 = PInf"
    have "\<not> isNaN (fadd lo p1)"
      using fle_fzero_cases [OF assms(5)] assms(1-3)
      by (auto simp: fadd_PInf isNaN_def dest: fadd_feq [where x = lo and y = p1] simp: feq_def)
    then show ?thesis using assms(1) by (simp add: i fadd_PInf fle_PInf)
  next
    assume f2: "fin64 p2 \<and> 0 \<le> val p2"
    then have f1: "fin64 p1" using assms(5,6) by (auto simp: fle_def fin64_def fzero_def)
    have "val p1 \<le> val p2" using assms(6) f1 f2 by (simp add: fin64_fle)
    then have "fle (rnd (val lo + val p1)) (rnd (val lo + val p2))" by (intro rnd_mono) simp
    then show ?thesis
      using fadd_feq [OF assms(1) f1 assms(2,3)] fadd_feq [OF assms(1) _ assms(2,4)] f2
      by (meson feq_fle)
  qed
qed

lemma fadd_lower:
  assumes "fin64 lo" "is_f64 lo" "is_f64 p" "fle fzero p"
  shows "fle lo (fadd lo p)"
proof -
  from fle_fzero_cases [OF assms(4)] show ?thesis
  proof
    assume "p = PInf"
    then show ?thesis using assms(1) by (simp add: fadd_PInf fle_PInf fin64_def)
  next
    assume f: "fin64 p \<and> 0 \<le> val p"
    then have "fle (rnd (val lo)) (rnd (val lo + val p))" by (intro rnd_mono) simp
    then show ?thesis
      using is_f64_feq_rnd [OF assms(1,2)] fadd_feq [OF assms(1) _ assms(2,3)] f
      by (meson feq_fle)
  qed
qed

lemma is_f64_ge_min:
  assumes "is_f64 (Fin r)" "0 < r"
  shows "pw2 (- 1074) \<le> r"
proof -
  define M where "M = rne (r * pw2 (- expo r))"
  have r: "r = of_int M * pw2 (expo r)"
    unfolding M_def using assms by (rule is_f64_pos_decompose(1))
  have "0 < of_int M * pw2 (expo r)" using assms(2) r by simp
  then have "0 < (of_int M :: real)" using pw2_pos [of "expo r"] by (simp add: zero_less_mult_iff)
  then have "1 \<le> M" by simp
  then have M1: "(1::real) \<le> of_int M" by simp
  have "pw2 (- 1074) \<le> pw2 (expo r)" using expo_ge [of r] by (rule pw2_mono)
  then have "1 * pw2 (- 1074) \<le> of_int M * pw2 (expo r)"
    using M1 by (intro mult_mono) simp_all
  then show ?thesis using r by simp
qed

lemma rnd_top: "rnd (2 ^ 53) = Fin (2 ^ 53)"
  using rnd_of_nat [of "2 ^ 53"] by simp

lemma rnd_gt_half:
  assumes "pw2 (- 1074) \<le> x" "x \<le> 2 ^ 53"
  shows "\<exists>y. rnd x = Fin y \<and> x / 2 < y \<and> y \<le> 2 ^ 53"
proof -
  have x0: "0 < x" using assms(1) pw2_pos [of "- 1074"] by linarith
  define k where "k = ilog2 x"
  have b: "pw2 k \<le> x" "x < pw2 (k + 1)" using ilog2_bounds [OF x0] by (simp_all add: k_def)
  have "ilog2 (pw2 (- 1074)) \<le> ilog2 x" using assms(1) by (intro ilog2_mono) simp_all
  then have k1: "- 1074 \<le> k" by (simp add: ilog2_pw2 k_def)
  have "pw2 k \<le> pw2 53" using b(1) assms(2) by (simp add: pw2_def)
  then have "\<not> pw2 53 < pw2 k" by simp
  then have k2: "k \<le> 53" by (simp add: pw2_less_iff)
  have "rnd (of_int 1 * pw2 k) = Fin (of_int 1 * pw2 k)"
    using k1 k2 by (intro rnd_exact) simp_all
  then have e: "rnd (pw2 k) = Fin (pw2 k)" by simp
  have "fle (rnd (pw2 k)) (rnd x)" using b(1) by (rule rnd_mono)
  then have lo: "fle (Fin (pw2 k)) (rnd x)" by (simp only: e)
  have "fle (rnd x) (rnd (2 ^ 53))" using assms(2) by (rule rnd_mono)
  then have hi: "fle (rnd x) (Fin (2 ^ 53))" by (simp only: rnd_top)
  from lo hi pw2_pos [of k] obtain y where y: "rnd x = Fin y" "pw2 k \<le> y" "y \<le> 2 ^ 53"
    by (cases "rnd x") (simp_all add: fle_def isNaN_def)
  have "pw2 1 = 2" by (simp add: pw2_def)
  then have "pw2 (k + 1) = pw2 k * 2" by (simp only: pw2_add)
  then have "x / 2 < pw2 k" using b(2) by simp
  then show ?thesis using y by auto
qed

lemma rnd_above_half_min:
  assumes "pw2 (- 1075) < x" "x \<le> 2 ^ 53"
  shows "\<exists>y. rnd x = Fin y \<and> 0 < y \<and> y \<le> 2 ^ 53"
proof (cases "pw2 (- 1074) \<le> x")
  case True
  have x0: "0 < x" using True pw2_pos [of "- 1074"] by linarith
  from rnd_gt_half [OF True assms(2)] obtain y where "rnd x = Fin y" "x / 2 < y" "y \<le> 2 ^ 53"
    by blast
  then show ?thesis using x0 by (intro exI [of _ y]) simp
next
  case False
  then have lt: "x < pw2 (- 1074)" by simp
  have x0: "0 < x" using assms(1) pw2_pos [of "- 1075"] by linarith
  have "ilog2 x = - 1075" using assms(1) lt by (intro ilog2_unique) simp_all
  then have ex: "expo x = - 1074" by (simp add: expo_def)
  define z where "z = x * pw2 1074"
  have p: "pw2 (- 1075) * pw2 1074 = 1 / 2" "pw2 (- 1074) * pw2 1074 = 1"
    using pw2_add [of "- 1075" 1074] pw2_add [of "- 1074" 1074] by (simp_all add: pw2_def)
  have "pw2 (- 1075) * pw2 1074 < x * pw2 1074" using assms(1) by (intro mult_strict_right_mono) simp_all
  then have z1: "1 / 2 < z" by (simp add: p z_def)
  have "x * pw2 1074 < pw2 (- 1074) * pw2 1074" using lt by (intro mult_strict_right_mono) simp_all
  then have z2: "z < 1" by (simp add: p z_def)
  have fl: "\<lfloor>z\<rfloor> = 0" using z1 z2 by (simp add: floor_eq_iff)
  have "rne z = 1" using z1 by (simp add: rne_def fl)
  then have rp: "rnd_pos x = pw2 (- 1074)" by (simp add: rnd_pos_def ex z_def)
  have "pw2 (- 1074) < pw2 1024" by (rule pw2_strict_mono) simp
  then have "rnd x = Fin (pw2 (- 1074))" using x0 by (simp add: rnd_def rp)
  moreover have "pw2 (- 1074) \<le> 2 ^ 53" using pw2_mono [of "- 1074" 53] by (simp add: pw2_def)
  ultimately show ?thesis by simp
qed

lemma rnd_pw2_m52: "rnd (pw2 (- 52)) = Fin (pw2 (- 52))"
  using rnd_exact [of 1 "- 52"] by simp

lemma fsub_PInf: "fin64 lo \<Longrightarrow> fsub PInf lo = PInf"
  by (auto simp: fin64_cases fsub_def fadd_def isNaN_def is_inf_def split: if_splits)

lemma fmul_PInf: "fin64 f \<Longrightarrow> 0 < val f \<Longrightarrow> fmul PInf f = PInf"
  by (auto simp: fin64_cases fmul_def isNaN_def is_inf_def is_zero_def)

lemma f64_int_gap:
  assumes "is_f64 (Fin t)" "1 \<le> c" "of_nat c < t"
  shows "of_nat c + pw2 (- 52) \<le> t"
proof -
  have t1: "1 \<le> t" using assms(2,3) by (smt (verit) of_nat_1 of_nat_le_iff)
  have t0: "0 < t" using t1 by simp
  define M where "M = rne (t * pw2 (- expo t))"
  have r: "t = of_int M * pw2 (expo t)"
    unfolding M_def using assms(1) t0 by (rule is_f64_pos_decompose(1))
  have "ilog2 (pw2 0) \<le> ilog2 t" using t1 by (intro ilog2_mono) (simp_all add: pw2_def)
  then have "0 \<le> ilog2 t" by (simp add: ilog2_pw2)
  then have e: "0 \<le> expo t + 52" by (simp add: expo_def)
  have "t * pw2 52 = of_int M * (pw2 (expo t) * pw2 52)" using r by simp
  also have "pw2 (expo t) * pw2 52 = pw2 (expo t + 52)" by (simp add: pw2_add)
  also have "\<dots> = of_int (2 ^ nat (expo t + 52))" using e by (simp add: pw2_nat)
  finally have K: "t * pw2 52 = of_int (M * 2 ^ nat (expo t + 52))" by simp
  have C: "of_nat c * pw2 52 = (of_int (int c * 2 ^ 52) :: real)" by (simp add: pw2_def)
  have "of_nat c * pw2 52 < t * pw2 52" using assms(3) by (intro mult_strict_right_mono) simp_all
  then have "(of_int (int c * 2 ^ 52) :: real) < of_int (M * 2 ^ nat (expo t + 52))"
    by (simp only: K C)
  then have "int c * 2 ^ 52 < M * 2 ^ nat (expo t + 52)" by (simp only: of_int_less_iff)
  then have "int c * 2 ^ 52 + 1 \<le> M * 2 ^ nat (expo t + 52)" by simp
  then have "(of_int (int c * 2 ^ 52 + 1) :: real) \<le> of_int (M * 2 ^ nat (expo t + 52))"
    by (simp only: of_int_le_iff)
  then have "of_nat c * pw2 52 + 1 \<le> t * pw2 52" by (simp only: K) (simp add: pw2_def)
  then have "(of_nat c * pw2 52 + 1) * pw2 (- 52) \<le> (t * pw2 52) * pw2 (- 52)"
    by (intro mult_right_mono) simp_all
  then show ?thesis by (simp add: algebra_simps)
qed

subsection \<open>Counts, targets and the scan\<close>

lemma count_step_nat:
  assumes "k \<le> 2 ^ 53"
  shows "\<exists>k'\<le>2 ^ 53. fadd (Fin (of_nat k)) fone = Fin (of_nat k')"
proof (cases "k = 2 ^ 53")
  case True
  have "fadd (Fin (of_nat k)) fone = rnd 9007199254740993"
    by (simp add: True fone_def fadd_Fin)
  also have "\<dots> = Fin (of_nat (2 ^ 53))" by (simp add: rnd_tie_2p53)
  finally show ?thesis by blast
next
  case False
  then have s: "Suc k \<le> 2 ^ 53" using assms by simp
  have "fadd (Fin (of_nat k)) fone = rnd (of_nat (Suc k))"
    by (simp add: fone_def fadd_Fin add.commute)
  also have "\<dots> = Fin (of_nat (Suc k))" using s by (rule rnd_of_nat)
  finally show ?thesis using s by blast
qed

lemma parseValues_counts_nat:
  assumes "parseValues trimSpace parseFloat scanner buckets = Inr st"
  shows "\<forall>b\<in>set (pv_result st). \<exists>k\<le>2 ^ 53. count b = Fin (of_nat k)"
  using assms unfolding parseValues_def
proof (rule scan_loop_invariant)
  show "\<forall>b\<in>set (pv_result \<lparr>pv_result = newResult buckets, pv_sum = fzero, pv_count = fzero,
          pv_min = fzero, pv_max = fzero, pv_first = True\<rparr>).
          \<exists>k\<le>2 ^ 53. count b = Fin (of_nat k)"
    by (auto simp: newResult_def fzero_def intro: exI [of _ 0])
next
  fix v and s :: accum
  assume h: "\<forall>b\<in>set (pv_result s). \<exists>k\<le>2 ^ 53. count b = Fin (of_nat k)"
  show "\<forall>b\<in>set (pv_result (observe buckets v s)). \<exists>k\<le>2 ^ 53. count b = Fin (of_nat k)"
  proof
    fix b assume "b \<in> set (pv_result (observe buckets v s))"
    then obtain j where j: "j < length (pv_result s)"
      "b = incrementFrom (SearchFloat64s buckets v) (pv_result s) ! j"
      by (auto simp: pv_result_observe in_set_conv_nth)
    have o: "\<exists>k\<le>2 ^ 53. count (pv_result s ! j) = Fin (of_nat k)"
      using h j(1) by simp
    then obtain k where k: "k \<le> 2 ^ 53" "count (pv_result s ! j) = Fin (of_nat k)" by blast
    show "\<exists>k\<le>2 ^ 53. count b = Fin (of_nat k)"
      using o count_step_nat [OF k(1)] j k(2) by (simp add: incrementFrom_nth)
  qed
qed

lemma first_reaching_Some:
  "first_reaching t bs = Some i \<longleftrightarrow>
     i < length bs \<and> fge (count (bs ! i)) t \<and> (\<forall>j<i. \<not> fge (count (bs ! j)) t)"
proof (induction bs arbitrary: i)
  case Nil
  then show ?case by simp
next
  case (Cons b bs)
  show ?case
  proof (cases "fge (count b) t")
    case True
    then show ?thesis by (cases i) auto
  next
    case False
    show ?thesis
    proof (cases i)
      case 0
      then show ?thesis using False by simp
    next
      case (Suc k)
      have "(\<forall>j<Suc k. \<not> fge (count ((b # bs) ! j)) t)
            \<longleftrightarrow> (\<forall>j<k. \<not> fge (count (bs ! j)) t)"
        using False by (auto simp: less_Suc_eq_0_disj)
      then show ?thesis using False Suc Cons.IH [of k] by auto
    qed
  qed
qed

lemma first_reaching_exists:
  assumes "j < length bs" "fge (count (bs ! j)) t"
  shows "\<exists>i\<le>j. first_reaching t bs = Some i"
proof -
  define P where "P = (\<lambda>k. k < length bs \<and> fge (count (bs ! k)) t)"
  define i where "i = (LEAST k. P k)"
  have Pj: "P j" using assms by (simp add: P_def)
  then have Pi: "P i" unfolding i_def by (rule LeastI)
  have le: "i \<le> j" unfolding i_def using Pj by (rule Least_le)
  have "\<forall>k<i. \<not> fge (count (bs ! k)) t"
  proof (intro allI impI)
    fix k assume k: "k < i"
    then have "\<not> P k" unfolding i_def by (rule not_less_Least)
    moreover have "k < length bs" using k Pi by (simp add: P_def)
    ultimately show "\<not> fge (count (bs ! k)) t" by (simp add: P_def)
  qed
  then have "first_reaching t bs = Some i"
    using Pi by (simp add: first_reaching_Some P_def)
  then show ?thesis using le by blast
qed

text \<open>The target of a rank in \<open>(0, 1]\<close> for a count \<open>n \<ge> 1\<close>.\<close>

lemma target_props:
  assumes "is_f64 (Fin r)" "0 < r" "r \<le> 1" "1 \<le> n" "n \<le> 2 ^ 53"
  shows "\<exists>t. fmul (Fin r) (Fin (of_nat n)) = Fin t \<and> rnd t = Fin t \<and> 0 < t \<and> t \<le> of_nat n"
proof -
  have n0: "(of_nat n :: real) \<noteq> 0" using assms(4) by simp
  have m: "fmul (Fin r) (Fin (of_nat n)) = rnd (r * of_nat n)"
    using assms(2) n0 by (simp add: fmul_def isNaN_def is_inf_def is_zero_def)
  have "r \<le> r * of_nat n" using assms(2,4) by simp
  then have "fle (rnd r) (rnd (r * of_nat n))" by (rule rnd_mono)
  then have lo: "fle (Fin r) (rnd (r * of_nat n))" using assms(1) by simp
  have "r * of_nat n \<le> 1 * of_nat n" using assms(3) by (intro mult_right_mono) simp_all
  then have "r * of_nat n \<le> of_nat n" by simp
  then have "fle (rnd (r * of_nat n)) (rnd (of_nat n))" by (rule rnd_mono)
  then have hi: "fle (rnd (r * of_nat n)) (Fin (of_nat n))"
    by (simp only: rnd_of_nat [OF assms(5)])
  from lo hi assms(2) obtain t where t: "rnd (r * of_nat n) = Fin t" "r \<le> t" "t \<le> of_nat n"
    by (cases "rnd (r * of_nat n)") (simp_all add: fle_def isNaN_def)
  have "is_f64 (Fin t)" using rnd_is_f64 [of "r * of_nat n"] by (simp only: t(1))
  then show ?thesis using m t assms(2) by auto
qed

lemma target_mono:
  assumes "r1 \<le> r2"
    and "fmul (Fin r1) (Fin (of_nat n)) = Fin t1" "fmul (Fin r2) (Fin (of_nat n)) = Fin t2"
    and "0 < r1" "1 \<le> n"
  shows "t1 \<le> t2"
proof -
  have n0: "(of_nat n :: real) \<noteq> 0" using assms(5) by simp
  have m: "fmul (Fin r1) (Fin (of_nat n)) = rnd (r1 * of_nat n)"
          "fmul (Fin r2) (Fin (of_nat n)) = rnd (r2 * of_nat n)"
    using assms(1,4) n0 by (simp_all add: fmul_def isNaN_def is_inf_def is_zero_def)
  have "r1 * of_nat n \<le> r2 * of_nat n" using assms(1) by (simp add: mult_right_mono)
  then have "fle (rnd (r1 * of_nat n)) (rnd (r2 * of_nat n))" by (rule rnd_mono)
  then have "fle (Fin t1) (Fin t2)" using m assms(2,3) by simp
  then show ?thesis by (simp add: fle_def)
qed

lemma target_low:
  assumes "is_f64 (Fin r)" "0 < r" "r \<le> 1" "1 \<le> n" "n \<le> 2 ^ 53"
    and "fmul (Fin r) (Fin (of_nat n)) = Fin t"
  shows "pw2 (- 1075) * of_nat n < t"
proof -
  have n0: "(of_nat n :: real) \<noteq> 0" using assms(4) by simp
  have n1: "(1::real) \<le> of_nat n" using assms(4) by simp
  have m: "fmul (Fin r) (Fin (of_nat n)) = rnd (r * of_nat n)"
    using assms(2) n0 by (simp add: fmul_def isNaN_def is_inf_def is_zero_def)
  have rmin: "pw2 (- 1074) \<le> r" using assms(1,2) by (rule is_f64_ge_min)
  have "pw2 (- 1074) * of_nat n \<le> r * of_nat n" using rmin by (intro mult_right_mono) simp_all
  then have x1: "pw2 (- 1074) * of_nat n \<le> r * of_nat n" .
  have "pw2 (- 1074) * 1 \<le> pw2 (- 1074) * of_nat n" using n1 by (intro mult_left_mono) simp_all
  then have "pw2 (- 1074) \<le> pw2 (- 1074) * of_nat n" by simp
  then have lo: "pw2 (- 1074) \<le> r * of_nat n" using x1 by (rule order_trans)
  have "r * of_nat n \<le> 1 * of_nat n" using assms(3) by (intro mult_right_mono) simp_all
  moreover have "(of_nat n :: real) \<le> 2 ^ 53"
    using assms(5) by (metis of_nat_le_iff of_nat_numeral of_nat_power)
  ultimately have hi: "r * of_nat n \<le> 2 ^ 53" by simp
  obtain y where y: "rnd (r * of_nat n) = Fin y" "r * of_nat n / 2 < y"
    using rnd_gt_half [OF lo hi] by blast
  have ty: "t = y" using m y(1) assms(6) by simp
  have "pw2 (- 1075) * 2 = pw2 (- 1074)" using pw2_add [of "- 1075" 1] by (simp add: pw2_def)
  then have "pw2 (- 1075) * of_nat n = pw2 (- 1074) * of_nat n / 2" by simp
  also have "\<dots> \<le> r * of_nat n / 2" using x1 by simp
  finally show ?thesis using y(2) ty by simp
qed

lemma counts_ok_le:
  assumes "counts_ok rs" "k < length rs"
  shows "j \<le> k \<Longrightarrow> fle (count (rs ! j)) (count (rs ! k))"
  using assms(2)
proof (induction k)
  case 0
  then have "\<not> isNaN (count (rs ! 0))" using assms(1) by (simp add: counts_ok_def)
  then show ?case using 0 by (simp add: fle_def)
next
  case (Suc k)
  show ?case
  proof (cases "j = Suc k")
    case True
    have "\<not> isNaN (count (rs ! Suc k))" using assms(1) Suc.prems by (simp add: counts_ok_def)
    then show ?thesis using True by (simp add: fle_def)
  next
    case False
    then have "fle (count (rs ! j)) (count (rs ! k))" using Suc by simp
    moreover have "fle (count (rs ! k)) (count (rs ! Suc k))"
      using assms(1) Suc.prems by (simp add: counts_ok_def)
    ultimately show ?thesis by (rule fle_trans)
  qed
qed


lemma rank_cases:
  assumes "flt fzero q1" "fle q1 q2" "fle q2 fone"
  shows "\<exists>r1 r2. q1 = Fin r1 \<and> q2 = Fin r2 \<and> 0 < r1 \<and> r1 \<le> r2 \<and> r2 \<le> 1"
  using assms
  by (cases q1; cases q2) (simp_all add: flt_def fle_def fzero_def fone_def isNaN_def)

lemma parseValues_counts_bounded:
  assumes st: "parseValues trimSpace parseFloat scanner buckets = Inr st"
    and ne: "scanner \<noteq> []"
  shows "\<exists>N. 1 \<le> N \<and> N \<le> 2 ^ 53 \<and> pv_count st = Fin (of_nat N)
           \<and> (\<forall>b\<in>set (pv_result st). \<exists>k\<le>N. count b = Fin (of_nat k))"
proof -
  define B where "B = length buckets"
  have len: "length (pv_result st) = B + 1"
    and last: "count (pv_result st ! B) = pv_count st"
    using parseValues_last_count [OF st] by (simp_all add: B_def)
  have nat: "\<forall>b\<in>set (pv_result st). \<exists>k\<le>2 ^ 53. count b = Fin (of_nat k)"
    using st by (rule parseValues_counts_nat)
  have "pv_result st ! B \<in> set (pv_result st)" using len by simp
  then obtain N where N: "N \<le> 2 ^ 53" "pv_count st = Fin (of_nat N)"
    using nat last by metis
  have it: "pv_count st = ((\<lambda>c. fadd c fone) ^^ length scanner) fzero"
    using scan_loop_count [OF st [unfolded parseValues_def]] by simp
  obtain r where r: "pv_count st = Fin r" "1 \<le> r"
    using count_iter_fin [of "length scanner"] ne it by auto
  have "(1::real) \<le> of_nat N" using r N(2) by simp
  then have N1: "1 \<le> N" by simp
  have cok: "counts_ok (pv_result st)" using st by (rule parseValues_counts_ok)
  have "\<forall>b\<in>set (pv_result st). \<exists>k\<le>N. count b = Fin (of_nat k)"
  proof
    fix b assume b: "b \<in> set (pv_result st)"
    then obtain j where j: "j < length (pv_result st)" "b = pv_result st ! j"
      by (auto simp: in_set_conv_nth)
    obtain k where k: "count b = Fin (of_nat k)" using nat b by blast
    have "fle (count (pv_result st ! j)) (count (pv_result st ! B))"
      using j(1) len by (intro counts_ok_le [OF cok]) simp_all
    then have "fle (Fin (of_nat k)) (Fin (of_nat N))" using k j(2) last N(2) by simp
    then have "k \<le> N" by (simp add: fle_def)
    then show "\<exists>k\<le>N. count b = Fin (of_nat k)" using k by blast
  qed
  then show ?thesis using N N1 by blast
qed


subsection \<open>The edges of the resolved bucket\<close>

text \<open>
  No sample moves the counts on the two sides of a bound \<open>+Inf\<close> apart: the count of a
  bucket whose lower edge is \<open>+Inf\<close> is the count of the bucket before it.
\<close>

lemma parseValues_inf_edge:
  assumes "parseValues trimSpace parseFloat scanner buckets = Inr st"
    and srt: "sorted_wrt fle buckets"
  shows "length (pv_result st) = length buckets + 1
       \<and> (\<forall>j. 0 < j \<and> j < length buckets \<and> buckets ! (j - 1) = PInf
              \<longrightarrow> count (pv_result st ! (j - 1)) = count (pv_result st ! j))"
  using assms(1) unfolding parseValues_def
proof (rule scan_loop_invariant)
  show "length (pv_result \<lparr>pv_result = newResult buckets, pv_sum = fzero, pv_count = fzero,
          pv_min = fzero, pv_max = fzero, pv_first = True\<rparr>) = length buckets + 1
        \<and> (\<forall>j. 0 < j \<and> j < length buckets \<and> buckets ! (j - 1) = PInf
              \<longrightarrow> count (pv_result \<lparr>pv_result = newResult buckets, pv_sum = fzero,
                     pv_count = fzero, pv_min = fzero, pv_max = fzero, pv_first = True\<rparr> ! (j - 1))
                  = count (pv_result \<lparr>pv_result = newResult buckets, pv_sum = fzero,
                     pv_count = fzero, pv_min = fzero, pv_max = fzero, pv_first = True\<rparr> ! j))"
    by (simp add: newResult_def nth_append)
next
  fix v and s :: accum
  assume h: "length (pv_result s) = length buckets + 1
        \<and> (\<forall>j. 0 < j \<and> j < length buckets \<and> buckets ! (j - 1) = PInf
              \<longrightarrow> count (pv_result s ! (j - 1)) = count (pv_result s ! j))"
  define ix where "ix = SearchFloat64s buckets v"
  have r: "pv_result (observe buckets v s) = incrementFrom ix (pv_result s)"
    by (simp add: pv_result_observe ix_def)
  have "\<forall>j. 0 < j \<and> j < length buckets \<and> buckets ! (j - 1) = PInf
              \<longrightarrow> count (incrementFrom ix (pv_result s) ! (j - 1))
                  = count (incrementFrom ix (pv_result s) ! j)"
  proof (intro allI impI)
    fix j assume j: "0 < j \<and> j < length buckets \<and> buckets ! (j - 1) = PInf"
    have ne: "ix \<noteq> j"
    proof
      assume e: "ix = j"
      have "\<forall>k<ix. \<not> fge (buckets ! k) v"
        using SearchFloat64s_sorted [OF srt, of v] by (simp add: ix_def)
      moreover have "j - 1 < ix" using e j by simp
      ultimately have "\<not> fge (buckets ! (j - 1)) v" by blast
      moreover have "buckets ! (j - 1) = PInf" using j by blast
      ultimately have "\<not> fle v PInf" by (simp add: fge_def)
      then have "isNaN v" using fle_PInf [of v] by blast
      then have "ix = length buckets" by (simp add: ix_def isNaN_def SearchFloat64s_NaN)
      then show False using e j by simp
    qed
    have c: "count (pv_result s ! (j - 1)) = count (pv_result s ! j)" using h j by blast
    have "length (pv_result s) = length buckets + 1" using h by blast
    moreover have "j < length buckets" using j by blast
    ultimately have l: "j - 1 < length (pv_result s)" "j < length (pv_result s)" by simp_all
    have "ix \<le> j - 1 \<longleftrightarrow> ix \<le> j" using ne j by auto
    then show "count (incrementFrom ix (pv_result s) ! (j - 1))
                  = count (incrementFrom ix (pv_result s) ! j)"
      using c by (simp add: incrementFrom_nth [OF l(1)] incrementFrom_nth [OF l(2)] del: One_nat_def)
  qed
  then show "length (pv_result (observe buckets v s)) = length buckets + 1
        \<and> (\<forall>j. 0 < j \<and> j < length buckets \<and> buckets ! (j - 1) = PInf
              \<longrightarrow> count (pv_result (observe buckets v s) ! (j - 1))
                  = count (pv_result (observe buckets v s) ! j))"
    using h by (simp only: r incrementFrom_length) 
qed

text \<open>The edges of the bucket that a target resolves to.\<close>

lemma resolved_edges:
  assumes st: "parseValues trimSpace parseFloat scanner buckets = Inr st"
    and srt: "sorted_wrt fle buckets"
    and bnd: "\<forall>b\<in>set buckets. is_f64 b \<and> fle fzero b"
    and r: "first_reaching t (pv_result st) = Some i"
  shows "\<not> isNaN (lower_edge (pv_result st) i)"
    and "i + 1 \<noteq> length (pv_result st) \<longrightarrow>
           fin64 (lower_edge (pv_result st) i) \<and> is_f64 (lower_edge (pv_result st) i)
           \<and> 0 \<le> val (lower_edge (pv_result st) i)"
    and "i + 1 \<noteq> length (pv_result st) \<longrightarrow>
           is_f64 (upperBound (pv_result st ! i))
           \<and> (upperBound (pv_result st ! i) = PInf
              \<or> fin64 (upperBound (pv_result st ! i))
                \<and> val (lower_edge (pv_result st) i) \<le> val (upperBound (pv_result st ! i)))"
proof -
  define bs where "bs = pv_result st"
  define B where "B = length buckets"
  have ub: "map upperBound bs = buckets @ [PInf]"
    using parseValues_upperBounds [OF st] by (simp add: bs_def)
  have len: "length bs = B + 1"
    using parseValues_last_count [OF st] by (simp add: bs_def B_def)
  have u: "upperBound (bs ! j) = buckets ! j" if "j < B" for j
  proof -
    have "map upperBound bs ! j = (buckets @ [PInf]) ! j" by (simp only: ub)
    then show ?thesis using that len by (simp add: nth_append B_def)
  qed
  have b: "is_f64 (buckets ! j) \<and> fle fzero (buckets ! j)" if "j < B" for j
    using bnd that by (simp add: B_def)
  have iB: "i \<le> B" using r len by (simp add: first_reaching_Some bs_def)
  have le: "lower_edge bs i = (if i = 0 then fzero else buckets ! (i - 1))"
    using iB u [of "i - 1"] by (simp add: lower_edge_def)
  have nn: "\<not> isNaN (lower_edge bs i)"
    using b [of "i - 1"] iB by (auto simp: le fzero_def isNaN_def fle_def)
  have lo: "fin64 (lower_edge bs i) \<and> is_f64 (lower_edge bs i) \<and> 0 \<le> val (lower_edge bs i)"
    if "i + 1 \<noteq> length bs"
  proof (cases "i = 0")
    case True
    then show ?thesis using le by (simp add: fzero_def fin64_def isNaN_def)
  next
    case False
    have i: "i < B" "0 < i" "i - 1 < B" using that iB len False by simp_all
    have "buckets ! (i - 1) \<noteq> PInf"
    proof
      assume "buckets ! (i - 1) = PInf"
      then have "count (bs ! (i - 1)) = count (bs ! i)"
        using parseValues_inf_edge [OF st srt] i by (simp add: bs_def B_def)
      moreover have "fge (count (bs ! i)) t" "\<not> fge (count (bs ! (i - 1))) t"
        using r i(2) by (simp_all add: first_reaching_Some bs_def)
      ultimately show False by simp
    qed
    then have "fin64 (buckets ! (i - 1)) \<and> 0 \<le> val (buckets ! (i - 1))"
      using b [OF i(3)] fle_fzero_cases [of "buckets ! (i - 1)"] by blast
    then show ?thesis using b [OF i(3)] False by (simp add: le)
  qed
  have up: "is_f64 (upperBound (bs ! i))
           \<and> (upperBound (bs ! i) = PInf
              \<or> fin64 (upperBound (bs ! i)) \<and> val (lower_edge bs i) \<le> val (upperBound (bs ! i)))"
    if "i + 1 \<noteq> length bs"
  proof -
    have i: "i < B" using that iB len by simp
    note l = lo [OF that]
    have c: "buckets ! i = PInf \<or> fin64 (buckets ! i) \<and> 0 \<le> val (buckets ! i)"
      using b [OF i] fle_fzero_cases [of "buckets ! i"] by blast
    show ?thesis
    proof (cases "buckets ! i = PInf")
      case True
      then show ?thesis using u [OF i] by simp
    next
      case False
      then have f: "fin64 (buckets ! i)" "0 \<le> val (buckets ! i)" using c by simp_all
      have "val (lower_edge bs i) \<le> val (buckets ! i)"
      proof (cases "i = 0")
        case True
        then show ?thesis using f(2) le by (simp add: fzero_def)
      next
        case i0: False
        then have "fle (buckets ! (i - 1)) (buckets ! i)"
          using srt i by (simp add: sorted_wrt_iff_nth_less B_def)
        then show ?thesis using l f(1) i0 by (simp add: le fin64_fle)
      qed
      then show ?thesis using f(1) b [OF i] u [OF i] by simp
    qed
  qed
  show "\<not> isNaN (lower_edge (pv_result st) i)" using nn by (simp add: bs_def)
  show "i + 1 \<noteq> length (pv_result st) \<longrightarrow>
           fin64 (lower_edge (pv_result st) i) \<and> is_f64 (lower_edge (pv_result st) i)
           \<and> 0 \<le> val (lower_edge (pv_result st) i)"
    using lo by (simp add: bs_def)
  show "i + 1 \<noteq> length (pv_result st) \<longrightarrow>
           is_f64 (upperBound (pv_result st ! i))
           \<and> (upperBound (pv_result st ! i) = PInf
              \<or> fin64 (upperBound (pv_result st ! i))
                \<and> val (lower_edge (pv_result st) i) \<le> val (upperBound (pv_result st ! i)))"
    using up by (simp add: bs_def)
qed

text \<open>The lower edge of a later bucket is not below the upper bound of an earlier one.\<close>

lemma edges_ordered:
  assumes st: "parseValues trimSpace parseFloat scanner buckets = Inr st"
    and srt: "sorted_wrt fle buckets"
    and bnd: "\<forall>b\<in>set buckets. is_f64 b \<and> fle fzero b"
    and i: "i1 < i2" "i2 < length (pv_result st)"
  shows "fle (upperBound (pv_result st ! i1)) (lower_edge (pv_result st) i2)"
proof -
  have len: "length (pv_result st) = length buckets + 1"
    using parseValues_last_count [OF st] by simp
  have u: "upperBound (pv_result st ! j) = buckets ! j" if "j < length buckets" for j
  proof -
    have "map upperBound (pv_result st) ! j = (buckets @ [PInf]) ! j"
      by (simp only: parseValues_upperBounds [OF st])
    then show ?thesis using that len by (simp add: nth_append)
  qed
  have j: "i1 < length buckets" "i2 - 1 < length buckets" "i1 \<le> i2 - 1" "i2 \<noteq> 0"
    using i len by simp_all
  have "fle (buckets ! i1) (buckets ! (i2 - 1))"
  proof (cases "i1 = i2 - 1")
    case True
    have "fle fzero (buckets ! i1)" using bnd j(1) by simp
    then show ?thesis using True by (simp add: fle_def)
  next
    case False
    then have "i1 < i2 - 1" using j(3) by simp
    then show ?thesis using srt j(2) by (simp add: sorted_wrt_iff_nth_less)
  qed
  then show ?thesis using u [OF j(1)] u [OF j(2)] j(4) by (simp add: lower_edge_def)
qed

subsection \<open>The estimate inside one bucket\<close>

lemma fraction_mono:
  assumes r1: "first_reaching (Fin t1) bs = Some i"
    and r2: "first_reaching (Fin t2) bs = Some i"
    and t: "0 < t1" "t1 \<le> t2" "rnd t1 = Fin t1" "rnd t2 = Fin t2"
    and low: "pw2 (- 1075) * of_nat N < t1"
    and N: "N \<le> 2 ^ 53"
    and cnt: "\<forall>b\<in>set bs. \<exists>k\<le>N. count b = Fin (of_nat k)"
  shows "fin64 (fraction bs i (Fin t1)) \<and> fin64 (fraction bs i (Fin t2))
       \<and> 0 < val (fraction bs i (Fin t1))
       \<and> fle (fraction bs i (Fin t1)) (fraction bs i (Fin t2))"
proof -
  have i: "i < length bs" using r1 by (simp add: first_reaching_Some)
  then obtain ci where ci: "ci \<le> N" "count (bs ! i) = Fin (of_nat ci)"
    using cnt by (metis nth_mem)
  have g1: "t1 \<le> of_nat ci" and g2: "t2 \<le> of_nat ci"
    using r1 r2 ci(2) by (simp_all add: first_reaching_Some fge_def fle_def isNaN_def)
  have t2: "0 < t2" using t(1,2) by linarith
  have N53: "(of_nat N :: real) \<le> 2 ^ 53"
    using N by (metis of_nat_le_iff of_nat_numeral of_nat_power)
  have ciN: "(of_nat ci :: real) \<le> of_nat N" using ci(1) by simp
  have ci53: "(of_nat ci :: real) \<le> 2 ^ 53" using ciN N53 by linarith
  have ci0: "0 < (of_nat ci :: real)" using g1 t(1) by linarith
  have small: "pw2 (- 1075) < t1 / of_nat ci"
  proof -
    have "pw2 (- 1075) * of_nat ci \<le> pw2 (- 1075) * of_nat N"
      using ciN by (intro mult_left_mono) simp_all
    then have "pw2 (- 1075) * of_nat ci < t1" using low by linarith
    then show ?thesis using ci0 by (simp add: pos_less_divide_eq)
  qed
  have key: "fin64 (fdiv n1 (Fin d)) \<and> fin64 (fdiv n2 (Fin d)) \<and> 0 < val (fdiv n1 (Fin d))
             \<and> fle (fdiv n1 (Fin d)) (fdiv n2 (Fin d))"
    if n: "fin64 n1" "fin64 n2" "val n1 \<le> val n2" "val n2 \<le> 2 ^ 53"
      and d: "1 \<le> d" and s: "pw2 (- 1075) < val n1 / d"
    for n1 n2 d
  proof -
    have d0: "d \<noteq> 0" "0 < d" using d by simp_all
    have e1: "feq (fdiv n1 (Fin d)) (rnd (val n1 / d))" using n(1) d0(1) by (rule fdiv_feq)
    have e2: "feq (fdiv n2 (Fin d)) (rnd (val n2 / d))" using n(2) d0(1) by (rule fdiv_feq)
    have q1: "0 \<le> val n1 / d" using s pw2_pos [of "- 1075"] by linarith
    then have n1: "0 \<le> val n1" using d0(2) by (simp add: zero_le_divide_iff)
    have n2: "0 \<le> val n2" using n1 n(3) by linarith
    have q2: "0 \<le> val n2 / d" using n2 d0(2) by simp
    have "val n2 / d \<le> val n2 / 1" using n2 d by (intro divide_left_mono) simp_all
    then have u2: "val n2 / d \<le> 2 ^ 53" using n(4) by simp
    have le: "val n1 / d \<le> val n2 / d" using n(3) d0(2) by (simp add: divide_right_mono)
    then have m: "fle (rnd (val n1 / d)) (rnd (val n2 / d))" by (rule rnd_mono)
    have u1: "val n1 / d \<le> 2 ^ 53" using le u2 by linarith
    obtain y where y: "rnd (val n1 / d) = Fin y" "0 < y"
      using rnd_above_half_min [OF s u1] by blast
    have b2: "fin64 (rnd (val n2 / d))" using rnd_between [OF q2 u2 rnd_top] by simp
    have "fin64 (fdiv n1 (Fin d))" using e1 y(1) by (simp add: feq_def fin64_def)
    moreover have "fin64 (fdiv n2 (Fin d))" using e2 b2 by (metis feq_fin64)
    moreover have "0 < val (fdiv n1 (Fin d))" using e1 y by (simp add: feq_def)
    moreover have "fle (fdiv n1 (Fin d)) (fdiv n2 (Fin d))" using e1 e2 m by (rule feq_fle)
    ultimately show ?thesis by simp
  qed
  have first:
    "fin64 (fdiv (Fin t1) (Fin (of_nat ci))) \<and> fin64 (fdiv (Fin t2) (Fin (of_nat ci)))
     \<and> 0 < val (fdiv (Fin t1) (Fin (of_nat ci)))
     \<and> fle (fdiv (Fin t1) (Fin (of_nat ci))) (fdiv (Fin t2) (Fin (of_nat ci)))"
  proof -
    have d: "(1::real) \<le> of_nat ci" using ci0 by simp
    have "fin64 (Fin t1)" "fin64 (Fin t2)" by (simp_all add: fin64_def isNaN_def)
    moreover have "val (Fin t1) \<le> val (Fin t2)" "val (Fin t2) \<le> 2 ^ 53"
      using t(2) g2 ci53 by simp_all
    moreover have "pw2 (- 1075) < val (Fin t1) / of_nat ci" using small by simp
    ultimately show ?thesis using d by (intro key) simp_all
  qed
  show ?thesis
  proof (cases "i = 0")
    case True
    then show ?thesis using first ci(2) by (simp add: fraction_def)
  next
    case False
    then have p: "i - 1 < length bs" "i - 1 < i" using i by simp_all
    obtain c0 where c0: "c0 \<le> N" "count (bs ! (i - 1)) = Fin (of_nat c0)"
      using cnt p(1) by (metis nth_mem)
    have l1: "of_nat c0 < t1" and l2: "of_nat c0 < t2"
      using r1 r2 p(2) c0(2) by (auto simp: first_reaching_Some fge_def fle_def isNaN_def)
    have "(of_nat c0 :: real) < of_nat ci" using l1 g1 by linarith
    then have lt: "c0 < ci" by simp
    show ?thesis
    proof (cases "c0 = 0")
      case True
      have "fraction bs i (Fin t1) = fdiv (Fin t1) (Fin (of_nat ci))"
           "fraction bs i (Fin t2) = fdiv (Fin t2) (Fin (of_nat ci))"
        using False True
        by (simp_all add: fraction_def c0(2) ci(2) fsub_Fin del: One_nat_def)
      then show ?thesis using first by simp
    next
      case nz: False
      then have c1: "1 \<le> c0" by simp
      have "fsub (count (bs ! i)) (count (bs ! (i - 1))) = rnd (of_nat ci - of_nat c0)"
        using nz by (simp add: ci(2) c0(2) fsub_Fin del: One_nat_def)
      also have "of_nat ci - of_nat c0 = (of_nat (ci - c0) :: real)"
        using lt by (simp add: of_nat_diff)
      also have "rnd (of_nat (ci - c0)) = Fin (of_nat (ci - c0))"
        using ci(1) N by (intro rnd_of_nat) simp
      finally have den: "fsub (count (bs ! i)) (count (bs ! (i - 1))) = Fin (of_nat (ci - c0))" .
      have d: "(1::real) \<le> of_nat (ci - c0)" using lt by simp
      have d53: "(of_nat (ci - c0) :: real) \<le> 2 ^ 53" using ci53 lt by (simp add: of_nat_diff)
      define n1 where "n1 = fsub (Fin t1) (count (bs ! (i - 1)))"
      define n2 where "n2 = fsub (Fin t2) (count (bs ! (i - 1)))"
      have e: "n1 = rnd (t1 - of_nat c0)" "n2 = rnd (t2 - of_nat c0)"
        using nz by (simp_all add: n1_def n2_def c0(2) fsub_Fin del: One_nat_def)
      have gap: "pw2 (- 52) \<le> t1 - of_nat c0"
        using f64_int_gap [of t1 c0] t(3) c1 l1 by simp
      have a1: "0 \<le> t1 - of_nat c0" "t1 - of_nat c0 \<le> t1" using l1 by simp_all
      have a2: "0 \<le> t2 - of_nat c0" "t2 - of_nat c0 \<le> t2" using l2 by simp_all
      have b1: "fin64 n1" using rnd_between [OF a1 t(3)] by (simp add: e)
      have b2: "fin64 n2 \<and> val n2 \<le> t2" using rnd_between [OF a2 t(4)] by (simp add: e)
      have "fle n1 n2" unfolding e using t(2) by (intro rnd_mono) simp
      then have m: "val n1 \<le> val n2" using b1 b2 by (simp add: fin64_fle)
      have "fle (rnd (pw2 (- 52))) n1" unfolding e using gap by (rule rnd_mono)
      then have "fle (Fin (pw2 (- 52))) n1" by (simp only: rnd_pw2_m52)
      then have v1: "pw2 (- 52) \<le> val n1" using b1 by (simp add: fle_def fin64_def)
      have "pw2 (- 105) * of_nat (ci - c0) \<le> pw2 (- 105) * 2 ^ 53"
        using d53 by (intro mult_left_mono) simp_all
      also have "pw2 (- 105) * 2 ^ 53 = pw2 (- 52)"
        using pw2_add [of "- 105" 53] by (simp add: pw2_def)
      finally have "pw2 (- 105) * of_nat (ci - c0) \<le> val n1" using v1 by linarith
      then have s0: "pw2 (- 105) \<le> val n1 / of_nat (ci - c0)"
        using d by (simp add: pos_le_divide_eq)
      have "pw2 (- 1075) < pw2 (- 105)" by (rule pw2_strict_mono) simp
      then have s: "pw2 (- 1075) < val n1 / of_nat (ci - c0)" using s0 by (rule less_le_trans)
      have "val n2 \<le> 2 ^ 53" using b2 g2 ci53 by linarith
      then have "fin64 (fdiv n1 (Fin (of_nat (ci - c0)))) \<and> fin64 (fdiv n2 (Fin (of_nat (ci - c0))))
             \<and> 0 < val (fdiv n1 (Fin (of_nat (ci - c0))))
             \<and> fle (fdiv n1 (Fin (of_nat (ci - c0)))) (fdiv n2 (Fin (of_nat (ci - c0))))"
        using b1 b2 m d s by (intro key) simp_all
      moreover have "fraction bs i (Fin t1) = fdiv n1 (Fin (of_nat (ci - c0)))"
           "fraction bs i (Fin t2) = fdiv n2 (Fin (of_nat (ci - c0)))"
        using False by (simp_all add: fraction_def n1_def n2_def den del: One_nat_def)
      ultimately show ?thesis by simp
    qed
  qed
qed

lemma interpolate_inner:
  assumes "first_reaching t bs = Some i" "i + 1 \<noteq> length bs"
  shows "interpolate bs t
         = fadd (lower_edge bs i)
             (fmul (fsub (upperBound (bs ! i)) (lower_edge bs i)) (fraction bs i t))"
  using assms by (simp add: interpolate_def Let_def)

lemma interpolate_last:
  assumes "first_reaching t bs = Some i" "i + 1 = length bs"
  shows "interpolate bs t = lower_edge bs i"
  using assms by (simp add: interpolate_def)

lemma product_props:
  assumes "fin64 w" "0 \<le> val w" "fin64 f" "0 \<le> val f"
  shows "is_f64 (fmul w f) \<and> fle fzero (fmul w f)"
proof -
  have e: "feq (fmul w f) (rnd (val w * val f))" using assms(1,3) by (rule fmul_feq)
  have "0 \<le> val w * val f" using assms(2,4) by simp
  then have "fle (rnd 0) (rnd (val w * val f))" by (rule rnd_mono)
  moreover have "feq fzero (rnd 0)" by (simp add: feq_def fzero_def isNaN_def)
  ultimately have "fle fzero (fmul w f)" using e by (metis feq_fle)
  then show ?thesis by (simp add: fmul_is_f64)
qed

lemma product_mono:
  assumes "fin64 w" "0 \<le> val w" "fin64 f1" "fin64 f2" "fle f1 f2"
  shows "fle (fmul w f1) (fmul w f2)"
proof -
  have e1: "feq (fmul w f1) (rnd (val w * val f1))" using assms(1,3) by (rule fmul_feq)
  have e2: "feq (fmul w f2) (rnd (val w * val f2))" using assms(1,4) by (rule fmul_feq)
  have "val f1 \<le> val f2" using assms(3-5) by (simp add: fin64_fle)
  then have "val w * val f1 \<le> val w * val f2" using assms(2) by (rule mult_left_mono)
  then have "fle (rnd (val w * val f1)) (rnd (val w * val f2))" by (rule rnd_mono)
  with e1 e2 show ?thesis by (rule feq_fle)
qed

text \<open>
  The estimate inside one bucket, for two targets in their order: it does not decrease,
  and it is not below the lower edge of the bucket.
\<close>

lemma interpolate_mono:
  assumes r1: "first_reaching (Fin t1) bs = Some i"
    and r2: "first_reaching (Fin t2) bs = Some i"
    and t: "0 < t1" "t1 \<le> t2" "rnd t1 = Fin t1" "rnd t2 = Fin t2"
    and low: "pw2 (- 1075) * of_nat N < t1"
    and N: "N \<le> 2 ^ 53"
    and cnt: "\<forall>b\<in>set bs. \<exists>k\<le>N. count b = Fin (of_nat k)"
    and nn: "\<not> isNaN (lower_edge bs i)"
    and lo: "i + 1 \<noteq> length bs \<longrightarrow>
             fin64 (lower_edge bs i) \<and> is_f64 (lower_edge bs i) \<and> 0 \<le> val (lower_edge bs i)"
    and up: "i + 1 \<noteq> length bs \<longrightarrow>
             is_f64 (upperBound (bs ! i))
             \<and> (upperBound (bs ! i) = PInf
                \<or> fin64 (upperBound (bs ! i)) \<and> val (lower_edge bs i) \<le> val (upperBound (bs ! i)))"
  shows "fle (interpolate bs (Fin t1)) (interpolate bs (Fin t2))
       \<and> fle (lower_edge bs i) (interpolate bs (Fin t1))"
proof (cases "i + 1 = length bs")
  case True
  then show ?thesis using r1 r2 nn by (simp add: interpolate_last fle_def)
next
  case False
  note f = fraction_mono [OF r1 r2 t low N cnt]
  have t2: "0 < t2" using t(1,2) by linarith
  have low2: "pw2 (- 1075) * of_nat N < t2" using low t(2) by linarith
  have f2: "0 < val (fraction bs i (Fin t2))"
    using fraction_mono [OF r2 r2 t2 order_refl t(4) t(4) low2 N cnt] by simp
  have l: "fin64 (lower_edge bs i)" "is_f64 (lower_edge bs i)" "0 \<le> val (lower_edge bs i)"
    using lo False by simp_all
  define w where "w = fsub (upperBound (bs ! i)) (lower_edge bs i)"
  have e: "interpolate bs (Fin t1) = fadd (lower_edge bs i) (fmul w (fraction bs i (Fin t1)))"
          "interpolate bs (Fin t2) = fadd (lower_edge bs i) (fmul w (fraction bs i (Fin t2)))"
    using r1 r2 False by (simp_all add: interpolate_inner w_def)
  show ?thesis
  proof (cases "upperBound (bs ! i) = PInf")
    case True
    then have "w = PInf" using l(1) by (simp add: w_def fsub_PInf)
    then have "fmul w (fraction bs i (Fin t1)) = PInf" "fmul w (fraction bs i (Fin t2)) = PInf"
      using f f2 by (simp_all add: fmul_PInf)
    then have "interpolate bs (Fin t1) = PInf" "interpolate bs (Fin t2) = PInf"
      using l(1) by (simp_all add: e fadd_PInf)
    then show ?thesis using nn by (simp add: fle_PInf isNaN_def)
  next
    case fin: False
    then have u: "fin64 (upperBound (bs ! i))" "is_f64 (upperBound (bs ! i))"
      "val (lower_edge bs i) \<le> val (upperBound (bs ! i))"
      using up False by simp_all
    have w: "fin64 w \<and> 0 \<le> val w"
      unfolding w_def using u l by (intro fsub_width) simp_all
    have p1: "is_f64 (fmul w (fraction bs i (Fin t1))) \<and> fle fzero (fmul w (fraction bs i (Fin t1)))"
      using w f by (intro product_props) simp_all
    have p2: "is_f64 (fmul w (fraction bs i (Fin t2)))" by (rule fmul_is_f64)
    have m: "fle (fmul w (fraction bs i (Fin t1))) (fmul w (fraction bs i (Fin t2)))"
      using w f by (intro product_mono) simp_all
    have "fle (fadd (lower_edge bs i) (fmul w (fraction bs i (Fin t1))))
              (fadd (lower_edge bs i) (fmul w (fraction bs i (Fin t2))))"
      using l(1,2) p1 p2 m by (intro fadd_mono_right) simp_all
    moreover have "fle (lower_edge bs i) (fadd (lower_edge bs i) (fmul w (fraction bs i (Fin t1))))"
      using l(1,2) p1 by (intro fadd_lower) simp_all
    ultimately show ?thesis by (simp add: e)
  qed
qed

subsection \<open>Examples\<close>

lemmas eval_rnd = rnd_def rnd_pos_def expo_def ilog2_def rne_def pw2_def Let_def compute_bitlen

lemmas eval_quantile = QuantileEstimator_def resolvedBucket_def interpolate_def fraction_def lower_edge_def

lemma negative_state:
  "parseValues exampleTrimSpace exampleParseFloat [''-6'', ''-6''] [Fin (- 5)]
     = Inr \<lparr>pv_result = [\<lparr>upperBound = Fin (- 5), count = Fin 2\<rparr>,
                          \<lparr>upperBound = PInf, count = Fin 2\<rparr>],
             pv_sum = Fin (- 12), pv_count = Fin 2, pv_min = Fin (- 6), pv_max = Fin (- 6),
             pv_first = False\<rparr>"
  by (simp add: eval_prog eval_loops eval_float eval_example)

lemma negative_rounding: "rnd (1 / 4) = Fin (1 / 4)" "rnd (1 / 2) = Fin (1 / 2)" "rnd (- (5 / 4)) = Fin (- (5 / 4))"
  "rnd (- (5 / 2)) = Fin (- (5 / 2))"
  by (simp_all add: eval_rnd)

lemma negative_est:
  "QuantileEstimator \<lparr>pv_result = [\<lparr>upperBound = Fin (- 5), count = Fin 2\<rparr>,
                          \<lparr>upperBound = PInf, count = Fin 2\<rparr>],
             pv_sum = Fin (- 12), pv_count = Fin 2, pv_min = Fin (- 6), pv_max = Fin (- 6),
             pv_first = False\<rparr> (Fin (1 / 4)) = Fin (- (5 / 4))"
  "QuantileEstimator \<lparr>pv_result = [\<lparr>upperBound = Fin (- 5), count = Fin 2\<rparr>,
                          \<lparr>upperBound = PInf, count = Fin 2\<rparr>],
             pv_sum = Fin (- 12), pv_count = Fin 2, pv_min = Fin (- 6), pv_max = Fin (- 6),
             pv_first = False\<rparr> (Fin (1 / 2)) = Fin (- (5 / 2))"
  by (simp_all add: eval_quantile eval_float negative_rounding)

lemma rounding_state:
  "parseValues exampleTrimSpace exampleParseFloat
       [''0'', ''1'', ''1.5000000000000004'', ''1.5000000000000004'']
       [Fin (3 / 2 ^ 53), Fin (3 / 2 + 1 / 2 ^ 52), Fin (3 / 2 + 3 / 2 ^ 52)]
     = Inr \<lparr>pv_result = [\<lparr>upperBound = Fin (3 / 2 ^ 53), count = Fin 1\<rparr>,
                          \<lparr>upperBound = Fin (3 / 2 + 1 / 2 ^ 52), count = Fin 2\<rparr>,
                          \<lparr>upperBound = Fin (3 / 2 + 3 / 2 ^ 52), count = Fin 4\<rparr>,
                          \<lparr>upperBound = PInf, count = Fin 4\<rparr>],
             pv_sum = Fin (4 + 1 / 2 ^ 50), pv_count = Fin 4, pv_min = Fin 0,
             pv_max = Fin (3 / 2 + 1 / 2 ^ 51), pv_first = False\<rparr>"
  by (simp add: eval_prog eval_loops eval_float eval_example eval_rnd)

lemma rounding_est1:
  "QuantileEstimator \<lparr>pv_result = [\<lparr>upperBound = Fin (3 / 2 ^ 53), count = Fin 1\<rparr>,
                          \<lparr>upperBound = Fin (3 / 2 + 1 / 2 ^ 52), count = Fin 2\<rparr>,
                          \<lparr>upperBound = Fin (3 / 2 + 3 / 2 ^ 52), count = Fin 4\<rparr>,
                          \<lparr>upperBound = PInf, count = Fin 4\<rparr>],
             pv_sum = Fin (4 + 1 / 2 ^ 50), pv_count = Fin 4, pv_min = Fin 0,
             pv_max = Fin (3 / 2 + 1 / 2 ^ 51), pv_first = False\<rparr> (Fin (1 / 2))
   = Fin (3 / 2 + 1 / 2 ^ 51)"
  by (simp add: eval_quantile eval_float eval_rnd)

lemma rounding_est2:
  "QuantileEstimator \<lparr>pv_result = [\<lparr>upperBound = Fin (3 / 2 ^ 53), count = Fin 1\<rparr>,
                          \<lparr>upperBound = Fin (3 / 2 + 1 / 2 ^ 52), count = Fin 2\<rparr>,
                          \<lparr>upperBound = Fin (3 / 2 + 3 / 2 ^ 52), count = Fin 4\<rparr>,
                          \<lparr>upperBound = PInf, count = Fin 4\<rparr>],
             pv_sum = Fin (4 + 1 / 2 ^ 50), pv_count = Fin 4, pv_min = Fin 0,
             pv_max = Fin (3 / 2 + 1 / 2 ^ 51), pv_first = False\<rparr> (Fin (1 / 2 + 1 / 2 ^ 53))
   = Fin (3 / 2 + 1 / 2 ^ 52)"
  by (simp add: eval_quantile eval_float eval_rnd)

lemma rounding_valid: "is_f64 (Fin (1 / 2))" "is_f64 (Fin (1 / 2 + 1 / 2 ^ 53))"
  "is_f64 (Fin (3 / 2 ^ 53))" "is_f64 (Fin (3 / 2 + 1 / 2 ^ 52))" "is_f64 (Fin (3 / 2 + 3 / 2 ^ 52))"
  by (simp_all add: eval_rnd)

lemma empty_state:
  "parseValues exampleTrimSpace exampleParseFloat [] [Fin 1]
     = Inr \<lparr>pv_result = [\<lparr>upperBound = Fin 1, count = Fin 0\<rparr>,
                          \<lparr>upperBound = PInf, count = Fin 0\<rparr>],
             pv_sum = Fin 0, pv_count = Fin 0, pv_min = Fin 0, pv_max = Fin 0,
             pv_first = True\<rparr>"
  by (simp add: eval_prog eval_loops eval_float eval_example)

lemma empty_est:
  "QuantileEstimator \<lparr>pv_result = [\<lparr>upperBound = Fin 1, count = Fin 0\<rparr>,
                          \<lparr>upperBound = PInf, count = Fin 0\<rparr>],
             pv_sum = Fin 0, pv_count = Fin 0, pv_min = Fin 0, pv_max = Fin 0,
             pv_first = True\<rparr> (Fin (1 / 2)) = NaN"
  by (simp add: eval_quantile eval_float)

lemma unsorted_state:
  "parseValues exampleTrimSpace exampleParseFloat [''1'', ''3''] [Fin 3, Fin 2, Fin 1]
     = Inr \<lparr>pv_result = [\<lparr>upperBound = Fin 3, count = Fin 1\<rparr>,
                          \<lparr>upperBound = Fin 2, count = Fin 1\<rparr>,
                          \<lparr>upperBound = Fin 1, count = Fin 1\<rparr>,
                          \<lparr>upperBound = PInf, count = Fin 2\<rparr>],
             pv_sum = Fin 4, pv_count = Fin 2, pv_min = Fin 1, pv_max = Fin 3,
             pv_first = False\<rparr>"
  by (simp add: eval_prog eval_loops eval_float eval_example)

lemma unsorted_est:
  "QuantileEstimator \<lparr>pv_result = [\<lparr>upperBound = Fin 3, count = Fin 1\<rparr>,
                          \<lparr>upperBound = Fin 2, count = Fin 1\<rparr>,
                          \<lparr>upperBound = Fin 1, count = Fin 1\<rparr>,
                          \<lparr>upperBound = PInf, count = Fin 2\<rparr>],
             pv_sum = Fin 4, pv_count = Fin 2, pv_min = Fin 1, pv_max = Fin 3,
             pv_first = False\<rparr> (Fin (1 / 2)) = Fin 3"
  "QuantileEstimator \<lparr>pv_result = [\<lparr>upperBound = Fin 3, count = Fin 1\<rparr>,
                          \<lparr>upperBound = Fin 2, count = Fin 1\<rparr>,
                          \<lparr>upperBound = Fin 1, count = Fin 1\<rparr>,
                          \<lparr>upperBound = PInf, count = Fin 2\<rparr>],
             pv_sum = Fin 4, pv_count = Fin 2, pv_min = Fin 1, pv_max = Fin 3,
             pv_first = False\<rparr> (Fin (3 / 4)) = Fin 1"
  by (simp_all add: eval_quantile eval_float eval_rnd)

lemma unsorted_bounds:
  "linearBuckets (Fin 3) (Fin (- 1)) 3 = Inr [Fin 3, Fin 2, Fin 1]"
  by (simp add: linearBuckets_def linear_loop.simps eval_nat_numeral eval_float)

lemma negative_bucket:
  "resolvedBucket \<lparr>pv_result = [\<lparr>upperBound = Fin (- 5), count = Fin 2\<rparr>,
                          \<lparr>upperBound = PInf, count = Fin 2\<rparr>],
             pv_sum = Fin (- 12), pv_count = Fin 2, pv_min = Fin (- 6), pv_max = Fin (- 6),
             pv_first = False\<rparr> (Fin (1 / 4)) = Some 0"
  "resolvedBucket \<lparr>pv_result = [\<lparr>upperBound = Fin (- 5), count = Fin 2\<rparr>,
                          \<lparr>upperBound = PInf, count = Fin 2\<rparr>],
             pv_sum = Fin (- 12), pv_count = Fin 2, pv_min = Fin (- 6), pv_max = Fin (- 6),
             pv_first = False\<rparr> (Fin (1 / 2)) = Some 0"
  by (simp_all add: eval_quantile eval_float negative_rounding)

lemma rounding_bucket:
  "resolvedBucket \<lparr>pv_result = [\<lparr>upperBound = Fin (3 / 2 ^ 53), count = Fin 1\<rparr>,
                          \<lparr>upperBound = Fin (3 / 2 + 1 / 2 ^ 52), count = Fin 2\<rparr>,
                          \<lparr>upperBound = Fin (3 / 2 + 3 / 2 ^ 52), count = Fin 4\<rparr>,
                          \<lparr>upperBound = PInf, count = Fin 4\<rparr>],
             pv_sum = Fin (4 + 1 / 2 ^ 50), pv_count = Fin 4, pv_min = Fin 0,
             pv_max = Fin (3 / 2 + 1 / 2 ^ 51), pv_first = False\<rparr> (Fin (1 / 2)) = Some 1"
  "resolvedBucket \<lparr>pv_result = [\<lparr>upperBound = Fin (3 / 2 ^ 53), count = Fin 1\<rparr>,
                          \<lparr>upperBound = Fin (3 / 2 + 1 / 2 ^ 52), count = Fin 2\<rparr>,
                          \<lparr>upperBound = Fin (3 / 2 + 3 / 2 ^ 52), count = Fin 4\<rparr>,
                          \<lparr>upperBound = PInf, count = Fin 4\<rparr>],
             pv_sum = Fin (4 + 1 / 2 ^ 50), pv_count = Fin 4, pv_min = Fin 0,
             pv_max = Fin (3 / 2 + 1 / 2 ^ 51), pv_first = False\<rparr> (Fin (1 / 2 + 1 / 2 ^ 53)) = Some 2"
  by (simp_all add: eval_quantile eval_float eval_rnd)

subsection \<open>Monotonicity\<close>




end
